theory Spec2Isabelle
  imports Complex_Main
begin

section \<open>The perceptron of \<^verbatim>\<open>src/perceptron.py\<close>\<close>

text \<open>
  The class \<^verbatim>\<open>Perceptron\<close> is embedded as a record of its instance attributes and
  one function per method. A method takes the instance and its arguments and gives
  back the outcome (the returned value, or the exception raised) together with the
  instance as the method left it: a Python exception does not undo the assignments
  made before it. The typed embedding leaves out the \<^verbatim>\<open>TypeError\<close>s of ill-typed
  arguments.
\<close>

subsection \<open>Exceptions\<close>

text \<open>
  \<^verbatim>\<open>IndexError\<close>, \<^verbatim>\<open>AttributeError\<close> and \<^verbatim>\<open>OverflowError\<close> are the
  built-in exceptions the source can raise on well-typed arguments.
  \<^verbatim>\<open>InvalidInput\<close> and \<^verbatim>\<open>NotTrained\<close> are the two errors named by the
  specification; they are constructors here so that statements about them can be
  written down, and no equation below produces them, as no line of the source raises
  them.
\<close>

datatype py_error = IndexError | AttributeError | OverflowError | InvalidInput | NotTrained

subsection \<open>Python numbers\<close>

text \<open>
  The source computes with Python's \<^verbatim>\<open>int\<close> (exact, unbounded) and \<^verbatim>\<open>float\<close>
  (IEEE doubles: rounded results, infinities, NaN). Integers are embedded as \<open>int\<close>.
  The floats are a type parameter \<open>'f\<close> and their arithmetic is a parameter \<open>F\<close> of
  every function below: the three operations the source uses, the conversion of an
  integer to a float, which raises \<^verbatim>\<open>OverflowError\<close> when the integer is too
  large (\<open>None\<close>), and how a float compares with 0 (a NaN is unordered). Every
  theorem stated for an arbitrary \<open>F\<close> holds in particular for the arithmetic of the
  doubles.

  The built-in \<^verbatim>\<open>sum\<close> is part of the parameter. It starts from the integer 0 and
  takes the items in one at a time; besides the total it may keep a state of its own
  (type \<open>'c\<close>, initially \<open>sum_hidden\<close>): CPython up to 3.11 adds every item to the
  total with \<^verbatim>\<open>+\<close> and keeps nothing else, CPython from 3.12 on also carries a
  compensation for the rounding errors of float items. \<open>sum_add\<close> takes in one item;
  like \<^verbatim>\<open>+\<close> it can raise \<^verbatim>\<open>OverflowError\<close> (\<open>None\<close>). The first component
  of the state is the total, which \<^verbatim>\<open>sum\<close> returns when the items are exhausted.
\<close>

datatype cmp0 = Less0 | Equal0 | Greater0 | Unordered0

datatype 'f pynum = PyInt int | PyFloat 'f

record ('f, 'c) arith =
  fadd :: "'f \<Rightarrow> 'f \<Rightarrow> 'f"
  fsub :: "'f \<Rightarrow> 'f \<Rightarrow> 'f"
  fmul :: "'f \<Rightarrow> 'f \<Rightarrow> 'f"
  float_of_int :: "int \<Rightarrow> 'f option"
  fsign :: "'f \<Rightarrow> cmp0"
  sum_hidden :: "'c"
  sum_add :: "'f pynum \<times> 'c \<Rightarrow> 'f pynum \<Rightarrow> ('f pynum \<times> 'c) option"

text \<open>
  A binary operation on two integers is exact; with a float among the operands the
  integer operand, if any, is converted first and the operation is the one of the
  floats, which does not raise.
\<close>

definition as_float :: "('f, 'c) arith \<Rightarrow> 'f pynum \<Rightarrow> py_error + 'f" where
  "as_float F a =
     (case a of
        PyFloat x \<Rightarrow> Inr x
      | PyInt n \<Rightarrow> (case float_of_int F n of None \<Rightarrow> Inl OverflowError | Some x \<Rightarrow> Inr x))"

definition binop ::
  "('f, 'c) arith \<Rightarrow> (int \<Rightarrow> int \<Rightarrow> int) \<Rightarrow> ('f \<Rightarrow> 'f \<Rightarrow> 'f) \<Rightarrow> 'f pynum \<Rightarrow> 'f pynum
     \<Rightarrow> py_error + 'f pynum" where
  "binop F iop fop a b =
     (case (a, b) of
        (PyInt m, PyInt n) \<Rightarrow> Inr (PyInt (iop m n))
      | _ \<Rightarrow>
          (case as_float F a of
             Inl e \<Rightarrow> Inl e
           | Inr x \<Rightarrow>
               (case as_float F b of
                  Inl e \<Rightarrow> Inl e
                | Inr y \<Rightarrow> Inr (PyFloat (fop x y)))))"

definition py_add :: "('f, 'c) arith \<Rightarrow> 'f pynum \<Rightarrow> 'f pynum \<Rightarrow> py_error + 'f pynum" where
  "py_add F = binop F (+) (fadd F)"

definition py_sub :: "('f, 'c) arith \<Rightarrow> 'f pynum \<Rightarrow> 'f pynum \<Rightarrow> py_error + 'f pynum" where
  "py_sub F = binop F (-) (fsub F)"

definition py_mul :: "('f, 'c) arith \<Rightarrow> 'f pynum \<Rightarrow> 'f pynum \<Rightarrow> py_error + 'f pynum" where
  "py_mul F = binop F (*) (fmul F)"

definition sum_step ::
  "('f, 'c) arith \<Rightarrow> 'f pynum \<times> 'c \<Rightarrow> 'f pynum \<Rightarrow> py_error + 'f pynum \<times> 'c" where
  "sum_step F acc p =
     (case sum_add F acc p of None \<Rightarrow> Inl OverflowError | Some acc' \<Rightarrow> Inr acc')"

text \<open>
  The comparisons of the source are both against the integer 0: \<^verbatim>\<open>z > 0\<close> and
  \<^verbatim>\<open>error != 0\<close>. Comparing a number with an integer does not raise.
\<close>

definition cmp_zero :: "('f, 'c) arith \<Rightarrow> 'f pynum \<Rightarrow> cmp0" where
  "cmp_zero F a =
     (case a of
        PyInt n \<Rightarrow> (if n < 0 then Less0 else if n = 0 then Equal0 else Greater0)
      | PyFloat x \<Rightarrow> fsign F x)"

definition gt_zero :: "('f, 'c) arith \<Rightarrow> 'f pynum \<Rightarrow> bool" where
  "gt_zero F a = (cmp_zero F a = Greater0)"

definition ne_zero :: "('f, 'c) arith \<Rightarrow> 'f pynum \<Rightarrow> bool" where
  "ne_zero F a = (cmp_zero F a \<noteq> Equal0)"

subsection \<open>The instance\<close>

text \<open>
  The attributes \<^verbatim>\<open>lr\<close>, \<^verbatim>\<open>n_iters\<close> and \<^verbatim>\<open>_iterations\<close> are set by
  \<^verbatim>\<open>__init__\<close>. The attribute \<^verbatim>\<open>weights\<close> is only annotated in the class
  body, so it does not exist until \<^verbatim>\<open>fit\<close> assigns it: \<open>None\<close> stands for the
  missing attribute. What the attribute holds is a parameter \<open>'w\<close>: the list of
  weights itself in the embedding by value that most of this theory uses, and the
  address of the list object in the embedding with an explicit store further down.
\<close>

record ('f, 'w) perceptron_obj =
  lr :: "'f pynum"
  n_iters :: int
  priv_iterations :: int
  weights :: "'w option"

type_synonym 'f perceptron = "('f, 'f pynum list) perceptron_obj"

type_synonym ('f, 'a) outcome = "(py_error + 'a) \<times> 'f perceptron"

subsection \<open>Construction and the \<^verbatim>\<open>iterations\<close> property\<close>

definition init :: "'f pynum \<Rightarrow> int \<Rightarrow> 'f perceptron" where
  "init learning_rate n =
     \<lparr>lr = learning_rate, n_iters = n, priv_iterations = 0, weights = None\<rparr>"

definition iterations :: "('f, 'w) perceptron_obj \<Rightarrow> int" where
  "iterations self = priv_iterations self"

subsection \<open>\<^verbatim>\<open>_activation\<close> and \<^verbatim>\<open>predict\<close>\<close>

definition activation :: "('f, 'c) arith \<Rightarrow> 'f pynum \<Rightarrow> 'f pynum" where
  "activation F z = (if gt_zero F z then PyInt 1 else PyInt (- 1))"

text \<open>
  \<^verbatim>\<open>sum(X[i] * self.weights[i] for i in range(len(X)))\<close>: the generator is consumed
  index by index, the total starts at the integer 0, and \<^verbatim>\<open>self.weights\<close> is
  looked up anew for every index. With no index to visit the attribute is never read.
  For each index the product is formed first and then taken in by \<^verbatim>\<open>sum\<close>.
\<close>

fun weighted_sum ::
  "('f, 'c) arith \<Rightarrow> 'f perceptron \<Rightarrow> 'f pynum list \<Rightarrow> nat list \<Rightarrow> 'f pynum \<times> 'c
     \<Rightarrow> py_error + 'f pynum \<times> 'c" where
  "weighted_sum F self X [] acc = Inr acc"
| "weighted_sum F self X (i # is) acc =
     (case weights self of
        None \<Rightarrow> Inl AttributeError
      | Some w \<Rightarrow>
          if i < length w then
            (case py_mul F (X ! i) (w ! i) of
               Inl e \<Rightarrow> Inl e
             | Inr p \<Rightarrow>
                 (case sum_step F acc p of
                    Inl e \<Rightarrow> Inl e
                  | Inr acc' \<Rightarrow> weighted_sum F self X is acc'))
          else Inl IndexError)"

definition predict :: "('f, 'c) arith \<Rightarrow> 'f perceptron \<Rightarrow> 'f pynum list \<Rightarrow> ('f, 'f pynum) outcome" where
  "predict F self X =
     (case weighted_sum F self X [0..<length X] (PyInt 0, sum_hidden F) of
        Inl e \<Rightarrow> (Inl e, self)
      | Inr acc \<Rightarrow> (Inr (activation F (fst acc)), self))"

subsection \<open>\<^verbatim>\<open>_update_weights\<close>\<close>

text \<open>
  The inner loop \<^verbatim>\<open>for j in range(len(X[i])): self.weights[j] += self.lr * error * X[i][j]\<close>
  over the indices still to visit. The augmented assignment reads
  \<^verbatim>\<open>self.weights[j]\<close> first, which is where a short weight list raises; then the
  right-hand side is evaluated from the left, added, and stored.
\<close>

fun update_weights_inner ::
  "('f, 'c) arith \<Rightarrow> 'f pynum list \<Rightarrow> 'f pynum \<Rightarrow> nat list \<Rightarrow> 'f perceptron \<Rightarrow> ('f, unit) outcome" where
  "update_weights_inner F x error [] self = (Inr (), self)"
| "update_weights_inner F x error (j # js) self =
     (case weights self of
        None \<Rightarrow> (Inl AttributeError, self)
      | Some w \<Rightarrow>
          if j < length w then
            (case py_mul F (lr self) error of
               Inl e \<Rightarrow> (Inl e, self)
             | Inr a \<Rightarrow>
                 (case py_mul F a (x ! j) of
                    Inl e \<Rightarrow> (Inl e, self)
                  | Inr b \<Rightarrow>
                      (case py_add F (w ! j) b of
                         Inl e \<Rightarrow> (Inl e, self)
                       | Inr c \<Rightarrow>
                           update_weights_inner F x error js
                             (self\<lparr>weights := Some (w[j := c])\<rparr>))))
          else (Inl IndexError, self))"

text \<open>
  The outer loop \<^verbatim>\<open>for i in range(len(X))\<close> over the indices still to visit;
  \<open>ok\<close> is the local \<^verbatim>\<open>all_classified_correctly\<close>. The result is
  \<^verbatim>\<open>not all_classified_correctly\<close>.
\<close>

fun update_weights_loop ::
  "('f, 'c) arith \<Rightarrow> 'f pynum list list \<Rightarrow> 'f pynum list \<Rightarrow> nat list \<Rightarrow> bool \<Rightarrow> 'f perceptron
     \<Rightarrow> ('f, bool) outcome" where
  "update_weights_loop F X y [] ok self = (Inr (\<not> ok), self)"
| "update_weights_loop F X y (i # is) ok self =
     (case predict F self (X ! i) of
        (Inl e, self1) \<Rightarrow> (Inl e, self1)
      | (Inr y_hat, self1) \<Rightarrow>
          if i < length y then
            (case py_sub F (y ! i) y_hat of
               Inl e \<Rightarrow> (Inl e, self1)
             | Inr error \<Rightarrow>
                 if ne_zero F error then
                   (case update_weights_inner F (X ! i) error [0..<length (X ! i)] self1 of
                      (Inl e, self2) \<Rightarrow> (Inl e, self2)
                    | (Inr u, self2) \<Rightarrow> update_weights_loop F X y is False self2)
                 else update_weights_loop F X y is ok self1)
          else (Inl IndexError, self1))"

definition update_weights ::
  "('f, 'c) arith \<Rightarrow> 'f perceptron \<Rightarrow> 'f pynum list list \<Rightarrow> 'f pynum list \<Rightarrow> ('f, bool) outcome" where
  "update_weights F self X y = update_weights_loop F X y [0..<length X] True self"

subsection \<open>\<^verbatim>\<open>fit\<close>\<close>

text \<open>
  \<^verbatim>\<open>for _ in range(self.n_iters)\<close> with the number of rounds still to run.
\<close>

fun fit_loop ::
  "('f, 'c) arith \<Rightarrow> nat \<Rightarrow> 'f perceptron \<Rightarrow> 'f pynum list list \<Rightarrow> 'f pynum list \<Rightarrow> ('f, unit) outcome" where
  "fit_loop F 0 self X y = (Inr (), self)"
| "fit_loop F (Suc k) self X y =
     (case update_weights F (self\<lparr>priv_iterations := priv_iterations self + 1\<rparr>) X y of
        (Inl e, self1) \<Rightarrow> (Inl e, self1)
      | (Inr changed, self1) \<Rightarrow>
          if \<not> changed then (Inr (), self1) else fit_loop F k self1 X y)"

text \<open>
  \<open>rnd i\<close> is the float returned by the \<open>i\<close>-th call of \<^verbatim>\<open>random.random()\<close> made
  by this call of \<^verbatim>\<open>fit\<close>. \<^verbatim>\<open>X[0]\<close> raises on an empty list before anything
  is assigned. \<^verbatim>\<open>X = [[1] + x for x in X]\<close> rebinds the local name to new lists
  that start with the integer 1.
\<close>

definition fit ::
  "('f, 'c) arith \<Rightarrow> 'f perceptron \<Rightarrow> 'f pynum list list \<Rightarrow> 'f pynum list \<Rightarrow> (nat \<Rightarrow> 'f)
     \<Rightarrow> ('f, unit) outcome" where
  "fit F self X y rnd =
     (case X of
        [] \<Rightarrow> (Inl IndexError, self)
      | x0 # rest \<Rightarrow>
          fit_loop F (nat (n_iters self))
            (self\<lparr>weights := Some (map (\<lambda>i. PyFloat (rnd i)) [0..<length x0 + 1]),
                  priv_iterations := 0\<rparr>)
            (map (\<lambda>x. PyInt 1 # x) X) y)"

section \<open>The same methods over an explicit store\<close>

text \<open>
  Python lists are objects reached through references, and \<^verbatim>\<open>fit\<close> receives
  references to objects of its caller. To see which objects \<^verbatim>\<open>fit\<close> writes to,
  this section embeds the methods once more with the list objects in a store:
  \<open>num_lists\<close> holds the lists of numbers (feature vectors, labels, weights),
  \<open>ref_lists\<close> the lists of references to lists of numbers (the samples), and the
  addresses below \<open>lim\<close> are the ones in use. Numbers are immutable and stay values.
\<close>

type_synonym addr = nat

record 'f store =
  num_lists :: "addr \<Rightarrow> 'f pynum list"
  ref_lists :: "addr \<Rightarrow> addr list"
  lim :: addr

type_synonym 'f perceptron_ref = "('f, addr) perceptron_obj"

type_synonym ('f, 'a) outcome_h = "(py_error + 'a) \<times> 'f perceptron_ref \<times> 'f store"

text \<open>A list display, comprehension or concatenation creates a new list object.\<close>

definition new_num_list :: "'f pynum list \<Rightarrow> 'f store \<Rightarrow> addr \<times> 'f store" where
  "new_num_list xs h = (lim h, h\<lparr>num_lists := (num_lists h)(lim h := xs), lim := lim h + 1\<rparr>)"

definition new_ref_list :: "addr list \<Rightarrow> 'f store \<Rightarrow> addr \<times> 'f store" where
  "new_ref_list as h = (lim h, h\<lparr>ref_lists := (ref_lists h)(lim h := as), lim := lim h + 1\<rparr>)"

text \<open>
  \<^verbatim>\<open>predict\<close>: \<open>x\<close> is the address of the input list; every element is read from
  the store when its index comes up.
\<close>

fun weighted_sum_h ::
  "('f, 'c) arith \<Rightarrow> 'f perceptron_ref \<Rightarrow> 'f store \<Rightarrow> addr \<Rightarrow> nat list \<Rightarrow> 'f pynum \<times> 'c
     \<Rightarrow> py_error + 'f pynum \<times> 'c" where
  "weighted_sum_h F self h x [] acc = Inr acc"
| "weighted_sum_h F self h x (i # is) acc =
     (case weights self of
        None \<Rightarrow> Inl AttributeError
      | Some wa \<Rightarrow>
          if i < length (num_lists h wa) then
            (case py_mul F (num_lists h x ! i) (num_lists h wa ! i) of
               Inl e \<Rightarrow> Inl e
             | Inr p \<Rightarrow>
                 (case sum_step F acc p of
                    Inl e \<Rightarrow> Inl e
                  | Inr acc' \<Rightarrow> weighted_sum_h F self h x is acc'))
          else Inl IndexError)"

definition predict_h ::
  "('f, 'c) arith \<Rightarrow> 'f perceptron_ref \<Rightarrow> 'f store \<Rightarrow> addr \<Rightarrow> ('f, 'f pynum) outcome_h" where
  "predict_h F self h x =
     (case weighted_sum_h F self h x [0..<length (num_lists h x)] (PyInt 0, sum_hidden F) of
        Inl e \<Rightarrow> (Inl e, self, h)
      | Inr acc \<Rightarrow> (Inr (activation F (fst acc)), self, h))"

text \<open>
  \<^verbatim>\<open>self.weights[j] += self.lr * error * X[i][j]\<close> stores into the list object
  that \<^verbatim>\<open>self.weights\<close> refers to; this is the only store into an existing list
  in the source.
\<close>

fun update_weights_inner_h ::
  "('f, 'c) arith \<Rightarrow> addr \<Rightarrow> 'f pynum \<Rightarrow> nat list \<Rightarrow> 'f perceptron_ref \<Rightarrow> 'f store
     \<Rightarrow> ('f, unit) outcome_h" where
  "update_weights_inner_h F x error [] self h = (Inr (), self, h)"
| "update_weights_inner_h F x error (j # js) self h =
     (case weights self of
        None \<Rightarrow> (Inl AttributeError, self, h)
      | Some wa \<Rightarrow>
          if j < length (num_lists h wa) then
            (case py_mul F (lr self) error of
               Inl e \<Rightarrow> (Inl e, self, h)
             | Inr a \<Rightarrow>
                 (case py_mul F a (num_lists h x ! j) of
                    Inl e \<Rightarrow> (Inl e, self, h)
                  | Inr b \<Rightarrow>
                      (case py_add F (num_lists h wa ! j) b of
                         Inl e \<Rightarrow> (Inl e, self, h)
                       | Inr c \<Rightarrow>
                           update_weights_inner_h F x error js self
                             (h\<lparr>num_lists := (num_lists h)(wa := (num_lists h wa)[j := c])\<rparr>))))
          else (Inl IndexError, self, h))"

fun update_weights_loop_h ::
  "('f, 'c) arith \<Rightarrow> addr \<Rightarrow> addr \<Rightarrow> nat list \<Rightarrow> bool \<Rightarrow> 'f perceptron_ref \<Rightarrow> 'f store
     \<Rightarrow> ('f, bool) outcome_h" where
  "update_weights_loop_h F X y [] ok self h = (Inr (\<not> ok), self, h)"
| "update_weights_loop_h F X y (i # is) ok self h =
     (case predict_h F self h (ref_lists h X ! i) of
        (Inl e, self1, h1) \<Rightarrow> (Inl e, self1, h1)
      | (Inr y_hat, self1, h1) \<Rightarrow>
          if i < length (num_lists h1 y) then
            (case py_sub F (num_lists h1 y ! i) y_hat of
               Inl e \<Rightarrow> (Inl e, self1, h1)
             | Inr error \<Rightarrow>
                 if ne_zero F error then
                   (case update_weights_inner_h F (ref_lists h1 X ! i) error
                           [0..<length (num_lists h1 (ref_lists h1 X ! i))] self1 h1 of
                      (Inl e, self2, h2) \<Rightarrow> (Inl e, self2, h2)
                    | (Inr u, self2, h2) \<Rightarrow> update_weights_loop_h F X y is False self2 h2)
                 else update_weights_loop_h F X y is ok self1 h1)
          else (Inl IndexError, self1, h1))"

definition update_weights_h ::
  "('f, 'c) arith \<Rightarrow> 'f perceptron_ref \<Rightarrow> 'f store \<Rightarrow> addr \<Rightarrow> addr \<Rightarrow> ('f, bool) outcome_h" where
  "update_weights_h F self h X y =
     update_weights_loop_h F X y [0..<length (ref_lists h X)] True self h"

fun fit_loop_h ::
  "('f, 'c) arith \<Rightarrow> nat \<Rightarrow> 'f perceptron_ref \<Rightarrow> 'f store \<Rightarrow> addr \<Rightarrow> addr \<Rightarrow> ('f, unit) outcome_h" where
  "fit_loop_h F 0 self h X y = (Inr (), self, h)"
| "fit_loop_h F (Suc k) self h X y =
     (case update_weights_h F (self\<lparr>priv_iterations := priv_iterations self + 1\<rparr>) h X y of
        (Inl e, self1, h1) \<Rightarrow> (Inl e, self1, h1)
      | (Inr changed, self1, h1) \<Rightarrow>
          if \<not> changed then (Inr (), self1, h1) else fit_loop_h F k self1 h1 X y)"

text \<open>
  \<^verbatim>\<open>[[1] + x for x in X]\<close>: for each referenced list in turn, the concatenation
  \<^verbatim>\<open>[1] + x\<close> is a new list object (the one-element operand \<^verbatim>\<open>[1]\<close> is
  unreachable once the concatenation is built and is not kept in the store); the
  comprehension then creates the list of the new references.
\<close>

fun augment_h :: "addr list \<Rightarrow> 'f store \<Rightarrow> addr list \<times> 'f store" where
  "augment_h [] h = ([], h)"
| "augment_h (a # as) h =
     (case new_num_list (PyInt 1 # num_lists h a) h of
        (b, h1) \<Rightarrow> (case augment_h as h1 of (bs, h2) \<Rightarrow> (b # bs, h2)))"

text \<open>
  \<^verbatim>\<open>fit\<close>: \<open>X\<close> and \<open>y\<close> are the addresses of the caller's samples and labels.
  Line 63 binds \<^verbatim>\<open>self.weights\<close> to a new list, line 67 binds the local name
  \<^verbatim>\<open>X\<close> to a new list of new lists.
\<close>

definition fit_h ::
  "('f, 'c) arith \<Rightarrow> 'f perceptron_ref \<Rightarrow> 'f store \<Rightarrow> addr \<Rightarrow> addr \<Rightarrow> (nat \<Rightarrow> 'f)
     \<Rightarrow> ('f, unit) outcome_h" where
  "fit_h F self h X y rnd =
     (case ref_lists h X of
        [] \<Rightarrow> (Inl IndexError, self, h)
      | a0 # rest \<Rightarrow>
          (case new_num_list (map (\<lambda>i. PyFloat (rnd i)) [0..<length (num_lists h a0) + 1]) h of
             (wa, h1) \<Rightarrow>
               (case augment_h (ref_lists h1 X) h1 of
                  (bs, h2) \<Rightarrow>
                    (case new_ref_list bs h2 of
                       (X1, h3) \<Rightarrow>
                         fit_loop_h F (nat (n_iters self))
                           (self\<lparr>weights := Some wa, priv_iterations := 0\<rparr>) h3 X1 y))))"

text \<open>
  Reading the store: the samples a reference to a list of lists stands for, and the
  instance by value that an instance with a reference to its weights stands for.
\<close>

definition samples_at :: "'f store \<Rightarrow> addr \<Rightarrow> 'f pynum list list" where
  "samples_at h X = map (num_lists h) (ref_lists h X)"

definition value_of :: "'f store \<Rightarrow> 'f perceptron_ref \<Rightarrow> 'f perceptron" where
  "value_of h self =
     \<lparr>lr = lr self, n_iters = n_iters self, priv_iterations = priv_iterations self,
      weights = map_option (num_lists h) (weights self)\<rparr>"

section \<open>Notions used to state the properties\<close>

text \<open>
  An arithmetic to run the methods on concrete inputs: the floats are real numbers,
  every operation is exact, and \<^verbatim>\<open>sum\<close> adds the items up. It agrees with the
  doubles wherever the operands and the results are doubles and no rounding occurs, as
  for the small integers and halves of the runs below.
\<close>

definition exact :: "(real, unit) arith" where
  "exact =
     \<lparr>fadd = (+), fsub = (-), fmul = (*), float_of_int = (\<lambda>n. Some (of_int n)),
      fsign = (\<lambda>x. if x < 0 then Less0 else if x = 0 then Equal0 else Greater0),
      sum_hidden = (),
      sum_add = (\<lambda>acc p.
        Some (case (fst acc, p) of
                (PyInt m, PyInt n) \<Rightarrow> PyInt (m + n)
              | (PyInt m, PyFloat x) \<Rightarrow> PyFloat (of_int m + x)
              | (PyFloat x, PyInt n) \<Rightarrow> PyFloat (x + of_int n)
              | (PyFloat x, PyFloat y) \<Rightarrow> PyFloat (x + y), ()))\<rparr>"

definition real_of_pynum :: "real pynum \<Rightarrow> real" where
  "real_of_pynum a = (case a of PyInt n \<Rightarrow> of_int n | PyFloat x \<Rightarrow> x)"

text \<open>
  The exceptions a call can end with once the weights exist: \<^verbatim>\<open>IndexError\<close>, and
  \<^verbatim>\<open>OverflowError\<close> in an arithmetic where a conversion or \<^verbatim>\<open>sum\<close> can
  overflow.
\<close>

definition overflows :: "('f, 'c) arith \<Rightarrow> bool" where
  "overflows F = ((\<exists>n. float_of_int F n = None) \<or> (\<exists>acc p. sum_add F acc p = None))"

definition index_or_overflow :: "('f, 'c) arith \<Rightarrow> py_error \<Rightarrow> bool" where
  "index_or_overflow F e = (e = IndexError \<or> (e = OverflowError \<and> overflows F))"

text \<open>
  The two local values \<^verbatim>\<open>fit\<close> works with once \<^verbatim>\<open>X[0]\<close> has succeeded: the
  instance after lines 63 and 64 (fresh weights, counter 0) and the augmented samples
  of line 67.
\<close>

definition fit_start :: "'f perceptron \<Rightarrow> 'f pynum list list \<Rightarrow> (nat \<Rightarrow> 'f) \<Rightarrow> 'f perceptron" where
  "fit_start self X rnd =
     self\<lparr>weights := Some (map (\<lambda>i. PyFloat (rnd i)) [0..<length (hd X) + 1]),
          priv_iterations := 0\<rparr>"

definition augment :: "'f pynum list list \<Rightarrow> 'f pynum list list" where
  "augment X = map (\<lambda>x. PyInt 1 # x) X"

text \<open>
  An epoch is one round of the loop of \<^verbatim>\<open>fit\<close>: the counter is incremented and
  \<^verbatim>\<open>_update_weights\<close> makes one pass over the samples. \<open>after_epochs k\<close> is the
  instance after \<open>k\<close> epochs in a row.
\<close>

definition epoch ::
  "('f, 'c) arith \<Rightarrow> 'f perceptron \<Rightarrow> 'f pynum list list \<Rightarrow> 'f pynum list \<Rightarrow> ('f, bool) outcome" where
  "epoch F self X y = update_weights F (self\<lparr>priv_iterations := priv_iterations self + 1\<rparr>) X y"

definition after_epochs ::
  "('f, 'c) arith \<Rightarrow> nat \<Rightarrow> 'f perceptron \<Rightarrow> 'f pynum list list \<Rightarrow> 'f pynum list \<Rightarrow> 'f perceptron" where
  "after_epochs F k self X y = ((\<lambda>s. snd (epoch F s X y)) ^^ k) self"

text \<open>
  The number of epochs the loop of \<^verbatim>\<open>fit\<close> executes when it has \<open>k\<close> rounds to go:
  an epoch that raises or that reports no misclassification is the last one.
\<close>

fun epochs_run ::
  "('f, 'c) arith \<Rightarrow> nat \<Rightarrow> 'f perceptron \<Rightarrow> 'f pynum list list \<Rightarrow> 'f pynum list \<Rightarrow> nat" where
  "epochs_run F 0 self X y = 0"
| "epochs_run F (Suc k) self X y =
     (case epoch F self X y of
        (Inl e, self1) \<Rightarrow> 1
      | (Inr changed, self1) \<Rightarrow> if changed then Suc (epochs_run F k self1 X y) else 1)"

text \<open>
  The update rule in the words of the specification, on a plain weight list and the
  samples paired with their labels, in the arithmetic of Python (the items of a sum
  are taken in from the left, and an operation that raises ends the computation with
  its exception).

  The weighted sum \<open>z = \<Sum> sample[i] * weight[i]\<close> over the aligned indices,
  starting from the integer 0, and the predicted label: \<open>+1\<close> if \<open>z > 0\<close>, else
  \<open>-1\<close>.
\<close>

fun spec_sum ::
  "('f, 'c) arith \<Rightarrow> ('f pynum \<times> 'f pynum) list \<Rightarrow> 'f pynum \<times> 'c
     \<Rightarrow> py_error + 'f pynum \<times> 'c" where
  "spec_sum F [] acc = Inr acc"
| "spec_sum F ((x, w) # rest) acc =
     (case py_mul F x w of
        Inl e \<Rightarrow> Inl e
      | Inr p \<Rightarrow> (case sum_step F acc p of Inl e \<Rightarrow> Inl e | Inr acc' \<Rightarrow> spec_sum F rest acc'))"

definition spec_predict ::
  "('f, 'c) arith \<Rightarrow> 'f pynum list \<Rightarrow> 'f pynum list \<Rightarrow> py_error + 'f pynum" where
  "spec_predict F sample w =
     (case spec_sum F (zip sample w) (PyInt 0, sum_hidden F) of
        Inl e \<Rightarrow> Inl e
      | Inr acc \<Rightarrow> Inr (if gt_zero F (fst acc) then PyInt 1 else PyInt (- 1)))"

text \<open>
  Every weight \<open>j\<close> becomes \<open>weight[j] + learning_rate * error * augmented_sample[j]\<close>.
\<close>

fun spec_adjust ::
  "('f, 'c) arith \<Rightarrow> 'f pynum \<Rightarrow> 'f pynum \<Rightarrow> ('f pynum \<times> 'f pynum) list
     \<Rightarrow> py_error + 'f pynum list" where
  "spec_adjust F eta error [] = Inr []"
| "spec_adjust F eta error ((w, a) # rest) =
     (case py_mul F eta error of
        Inl e \<Rightarrow> Inl e
      | Inr u \<Rightarrow>
          (case py_mul F u a of
             Inl e \<Rightarrow> Inl e
           | Inr v \<Rightarrow>
               (case py_add F w v of
                  Inl e \<Rightarrow> Inl e
                | Inr c \<Rightarrow>
                    (case spec_adjust F eta error rest of
                       Inl e \<Rightarrow> Inl e
                     | Inr cs \<Rightarrow> Inr (c # cs)))))"

text \<open>
  One sample: the augmented sample has the constant 1 in front; the error is the true
  label minus the predicted label; exactly when the error is not 0 the weights are
  adjusted and the epoch is marked as having seen a misclassification.
\<close>

definition spec_sample ::
  "('f, 'c) arith \<Rightarrow> 'f pynum \<Rightarrow> 'f pynum list \<Rightarrow> 'f pynum \<Rightarrow> bool \<Rightarrow> 'f pynum list
     \<Rightarrow> py_error + bool \<times> 'f pynum list" where
  "spec_sample F eta x t seen w =
     (case spec_predict F (PyInt 1 # x) w of
        Inl e \<Rightarrow> Inl e
      | Inr y_hat \<Rightarrow>
          (case py_sub F t y_hat of
             Inl e \<Rightarrow> Inl e
           | Inr error \<Rightarrow>
               if ne_zero F error then
                 (case spec_adjust F eta error (zip w (PyInt 1 # x)) of
                    Inl e \<Rightarrow> Inl e
                  | Inr w' \<Rightarrow> Inr (True, w'))
               else Inr (seen, w)))"

text \<open>One epoch: every sample in the original order.\<close>

fun spec_epoch ::
  "('f, 'c) arith \<Rightarrow> 'f pynum \<Rightarrow> ('f pynum list \<times> 'f pynum) list \<Rightarrow> bool \<Rightarrow> 'f pynum list
     \<Rightarrow> py_error + bool \<times> 'f pynum list" where
  "spec_epoch F eta [] seen w = Inr (seen, w)"
| "spec_epoch F eta ((x, t) # rest) seen w =
     (case spec_sample F eta x t seen w of
        Inl e \<Rightarrow> Inl e
      | Inr (seen', w') \<Rightarrow> spec_epoch F eta rest seen' w')"

text \<open>
  Training: up to \<open>k\<close> more epochs, the counter incremented with each; an epoch
  without misclassification is the last. The result is the counter and the weights.
\<close>

fun spec_train ::
  "('f, 'c) arith \<Rightarrow> 'f pynum \<Rightarrow> nat \<Rightarrow> ('f pynum list \<times> 'f pynum) list \<Rightarrow> 'f pynum list \<Rightarrow> int
     \<Rightarrow> py_error + int \<times> 'f pynum list" where
  "spec_train F eta 0 samples w n = Inr (n, w)"
| "spec_train F eta (Suc k) samples w n =
     (case spec_epoch F eta samples False w of
        Inl e \<Rightarrow> Inl e
      | Inr (seen, w') \<Rightarrow>
          if seen then spec_train F eta k samples w' (n + 1) else Inr (n + 1, w'))"

section \<open>The exceptions of the arithmetic\<close>

lemma binop_error: "binop F iop fop a b = Inl e \<Longrightarrow> e = OverflowError"
  by (auto simp: binop_def as_float_def split: pynum.splits option.splits sum.splits)

lemma py_arith_error:
  "py_add F a b = Inl e \<Longrightarrow> e = OverflowError"
  "py_sub F a b = Inl e \<Longrightarrow> e = OverflowError"
  "py_mul F a b = Inl e \<Longrightarrow> e = OverflowError"
  by (auto simp: py_add_def py_sub_def py_mul_def dest: binop_error)

lemma sum_step_error: "sum_step F acc p = Inl e \<Longrightarrow> e = OverflowError"
  by (simp add: sum_step_def split: option.splits)

section \<open>Prediction\<close>

lemma weighted_sum_drop:
  assumes "weights self = Some w" and "length X \<le> length w"
  shows "weighted_sum F self X [k..<length X] acc = spec_sum F (zip (drop k X) (drop k w)) acc"
proof (induction "length X - k" arbitrary: k acc)
  case 0
  then show ?case by simp
next
  case (Suc n)
  then have k: "k < length X" by simp
  then have kw: "k < length w" using assms(2) by simp
  have idx: "[k..<length X] = k # [Suc k..<length X]"
    using k by (simp add: upt_conv_Cons)
  have dx: "drop k X = X ! k # drop (Suc k) X" and dw: "drop k w = w ! k # drop (Suc k) w"
    using k kw by (simp_all add: Cons_nth_drop_Suc)
  have n: "n = length X - Suc k" using Suc.hyps(2) by simp
  show ?case
    unfolding idx dx dw
    using assms(1) kw Suc.hyps(1) [OF n]
    by (simp split: sum.splits)
qed

lemma weighted_sum_upt:
  assumes "weights self = Some w" and "length X \<le> length w"
  shows "weighted_sum F self X [0..<length X] acc = spec_sum F (zip X w) acc"
  using weighted_sum_drop [OF assms, of F 0 acc] by simp

text \<open>
  In the exact arithmetic the weighted sum of the specification is the sum of the
  products, added to the start value.
\<close>

lemma py_mul_exact:
  "\<exists>p. py_mul exact x w = Inr p \<and> real_of_pynum p = real_of_pynum x * real_of_pynum w"
  by (cases x; cases w)
     (simp_all add: py_mul_def binop_def as_float_def exact_def real_of_pynum_def)

lemma sum_step_exact:
  "\<exists>r. sum_step exact (a, ()) p = Inr (r, ())
       \<and> real_of_pynum r = real_of_pynum a + real_of_pynum p"
  by (cases a; cases p) (simp_all add: sum_step_def exact_def real_of_pynum_def)

lemma spec_sum_exact:
  "\<exists>r. spec_sum exact ps (a, ()) = Inr (r, ())
       \<and> real_of_pynum r = real_of_pynum a + (\<Sum>(x, w)\<leftarrow>ps. real_of_pynum x * real_of_pynum w)"
proof (induction ps arbitrary: a)
  case Nil
  show ?case by simp
next
  case (Cons q ps)
  obtain x w where q: "q = (x, w)" by (cases q)
  obtain p where p: "py_mul exact x w = Inr p"
    "real_of_pynum p = real_of_pynum x * real_of_pynum w"
    using py_mul_exact by blast
  obtain r where r: "sum_step exact (a, ()) p = Inr (r, ())"
    "real_of_pynum r = real_of_pynum a + real_of_pynum p"
    using sum_step_exact by blast
  from Cons.IH [of r] show ?case
    by (auto simp: q p r)
qed

lemma predict_state: "snd (predict F self X) = self"
  by (simp add: predict_def split: sum.splits)

lemma predict_value_range:
  assumes "fst (predict F self X) = Inr v"
  shows "v = PyInt 1 \<or> v = PyInt (- 1)"
  using assms by (auto simp: predict_def activation_def split: sum.splits if_splits)

lemma predict_spec:
  assumes "weights self = Some w" and "length X \<le> length w"
  shows "fst (predict F self X) = spec_predict F X w"
  by (simp add: predict_def spec_predict_def weighted_sum_upt [OF assms] activation_def
      split: sum.splits)

text \<open>
  Claim C2. Whenever the input is no longer than the weight list, \<^verbatim>\<open>predict\<close>
  forms the weighted sum \<open>z = \<Sum> X[i] * weight[i]\<close> over the indices of the input
  as Python computes it (the products taken in from the left, in the arithmetic
  \<open>F\<close>) and returns \<open>+1\<close> if \<open>z > 0\<close> and \<open>-1\<close> otherwise, or raises the
  \<^verbatim>\<open>OverflowError\<close> that a product or the sum raises; a sum that compares equal
  to 0 gives \<open>-1\<close>; and whatever the input and the instance, a value that
  \<^verbatim>\<open>predict\<close> returns is \<open>+1\<close> or \<open>-1\<close>.
\<close>

theorem predict_is_step_of_weighted_sum:
  assumes "weights self = Some w" and "length X \<le> length w"
  shows "fst (predict F self X) =
      (case spec_sum F (zip X w) (PyInt 0, sum_hidden F) of
         Inl e \<Rightarrow> Inl e
       | Inr (z, c) \<Rightarrow> Inr (if gt_zero F z then PyInt 1 else PyInt (- 1)))
    \<and> (\<forall>z c. spec_sum F (zip X w) (PyInt 0, sum_hidden F) = Inr (z, c) \<and> cmp_zero F z = Equal0 \<longrightarrow>
          fst (predict F self X) = Inr (PyInt (- 1)))
    \<and> (\<forall>self' X' v. fst (predict F self' X') = Inr v \<longrightarrow> v = PyInt 1 \<or> v = PyInt (- 1))"
proof -
  have step: "fst (predict F self X) =
      (case spec_sum F (zip X w) (PyInt 0, sum_hidden F) of
         Inl e \<Rightarrow> Inl e
       | Inr (z, c) \<Rightarrow> Inr (if gt_zero F z then PyInt 1 else PyInt (- 1)))"
    using predict_spec [OF assms, of F]
    by (simp add: spec_predict_def split: sum.splits prod.splits)
  have zero: "fst (predict F self X) = Inr (PyInt (- 1))"
    if "spec_sum F (zip X w) (PyInt 0, sum_hidden F) = Inr (z, c)" and "cmp_zero F z = Equal0"
    for z c
    using that by (simp add: step gt_zero_def)
  have range: "\<forall>self' X' v. fst (predict F self' X') = Inr v \<longrightarrow> v = PyInt 1 \<or> v = PyInt (- 1)"
    using predict_value_range by blast
  from step zero range show ?thesis by blast
qed

theorem predict_is_step_of_weighted_sum_witness:
  "weights \<lparr>lr = PyFloat (1 / 100 :: real), n_iters = 1000, priv_iterations = 3,
       weights = Some [PyFloat 1, PyFloat (- 1), PyFloat (5 :: real)]\<rparr>
     = Some [PyFloat 1, PyFloat (- 1), PyFloat 5]
   \<and> length [PyInt 2, PyFloat (2 :: real)] \<le> length [PyFloat 1, PyFloat (- 1), PyFloat (5 :: real)]
   \<and> spec_sum exact (zip [PyInt 2, PyFloat 2] [PyFloat 1, PyFloat (- 1), PyFloat 5])
         (PyInt 0, sum_hidden exact)
       = Inr (PyFloat 0, ())
   \<and> cmp_zero exact (PyFloat 0) = Equal0
   \<and> fst (predict exact \<lparr>lr = PyFloat (1 / 100), n_iters = 1000, priv_iterations = 3,
          weights = Some [PyFloat 1, PyFloat (- 1), PyFloat 5]\<rparr> [PyInt 2, PyFloat 2])
       = Inr (PyInt (- 1))"
proof -
  let ?p = "\<lparr>lr = PyFloat (1 / 100 :: real), n_iters = 1000, priv_iterations = 3,
       weights = Some [PyFloat 1, PyFloat (- 1), PyFloat (5 :: real)]\<rparr>"
  have w: "weights ?p = Some [PyFloat 1, PyFloat (- 1), PyFloat 5]" by simp
  have l: "length [PyInt 2, PyFloat (2 :: real)] \<le> length [PyFloat 1, PyFloat (- 1), PyFloat (5 :: real)]"
    by simp
  have z: "spec_sum exact (zip [PyInt 2, PyFloat 2] [PyFloat 1, PyFloat (- 1), PyFloat 5])
         (PyInt 0, sum_hidden exact)
       = Inr (PyFloat 0, ())"
    by (simp add: exact_def py_mul_def sum_step_def binop_def as_float_def)
  have c: "cmp_zero exact (PyFloat 0) = Equal0"
    by (simp add: exact_def cmp_zero_def)
  from predict_is_step_of_weighted_sum [OF w l, of exact, THEN conjunct2, THEN conjunct1]
  have "fst (predict exact ?p [PyInt 2, PyFloat 2]) = Inr (PyInt (- 1))"
    using z c by blast
  with w l z c show ?thesis by blast
qed

lemma weighted_sum_cong:
  "weights self = weights other \<Longrightarrow>
   weighted_sum F self X is acc = weighted_sum F other X is acc"
  by (induction "is" arbitrary: acc) (simp_all split: option.splits sum.splits)

lemma weighted_sum_no_weights:
  "weights self = None \<Longrightarrow> is \<noteq> [] \<Longrightarrow> weighted_sum F self X is acc = Inl AttributeError"
  by (cases "is") simp_all

text \<open>
  Claim C9. \<^verbatim>\<open>predict\<close> leaves the instance as it found it (weights and iteration
  counter included), and its outcome is a function of the weights and the input alone:
  two instances with the same weights give the same outcome on the same input,
  whatever their learning rate, iteration cap and iteration counter.
\<close>

theorem predict_pure:
  "snd (predict F self X) = self
   \<and> (weights self = weights other \<longrightarrow> fst (predict F self X) = fst (predict F other X))"
  by (simp add: predict_def weighted_sum_cong [of self other] split: sum.splits)

theorem predict_pure_witness:
  "weights \<lparr>lr = PyFloat (1 / 100 :: real), n_iters = 1000, priv_iterations = 3,
       weights = Some [PyFloat 1, PyFloat (- 1), PyFloat (5 :: real)]\<rparr>
     = weights \<lparr>lr = PyFloat (1 / 2 :: real), n_iters = 7, priv_iterations = 0,
       weights = Some [PyFloat 1, PyFloat (- 1), PyFloat 5]\<rparr>
   \<and> fst (predict exact \<lparr>lr = PyFloat (1 / 100), n_iters = 1000, priv_iterations = 3,
          weights = Some [PyFloat 1, PyFloat (- 1), PyFloat 5]\<rparr> [PyInt 3, PyInt 2])
     = fst (predict exact \<lparr>lr = PyFloat (1 / 2), n_iters = 7, priv_iterations = 0,
          weights = Some [PyFloat 1, PyFloat (- 1), PyFloat 5]\<rparr> [PyInt 3, PyInt 2])"
  using predict_pure
    [of exact "\<lparr>lr = PyFloat (1 / 100), n_iters = 1000, priv_iterations = 3,
          weights = Some [PyFloat 1, PyFloat (- 1), PyFloat 5]\<rparr>"
        "[PyInt 3, PyInt 2]"
        "\<lparr>lr = PyFloat (1 / 2), n_iters = 7, priv_iterations = 0,
          weights = Some [PyFloat 1, PyFloat (- 1), PyFloat 5]\<rparr>"]
  by simp

text \<open>
  Claim C8, as the code has it. Before any call of \<^verbatim>\<open>fit\<close> the attribute
  \<^verbatim>\<open>weights\<close> does not exist: \<^verbatim>\<open>predict\<close> on a non-empty input raises
  Python's \<^verbatim>\<open>AttributeError\<close> (there is no \<^verbatim>\<open>NotTrained\<close> error in the
  source), and \<^verbatim>\<open>predict\<close> on the empty input never reads the attribute and
  returns \<open>-1\<close>. The instance is unchanged in both cases.
\<close>

theorem predict_before_fit:
  "(X \<noteq> [] \<longrightarrow>
      predict F (init learning_rate n) X = (Inl AttributeError, init learning_rate n))
   \<and> predict F (init learning_rate n) [] = (Inr (PyInt (- 1)), init learning_rate n)"
proof -
  have none: "weights (init learning_rate n) = None"
    by (simp add: init_def)
  have "predict F (init learning_rate n) X = (Inl AttributeError, init learning_rate n)"
    if "X \<noteq> []"
  proof -
    have "[0..<length X] \<noteq> []" using that by simp
    from weighted_sum_no_weights [OF none this, where F = F]
    show ?thesis by (simp add: predict_def)
  qed
  moreover have "predict F (init learning_rate n) [] = (Inr (PyInt (- 1)), init learning_rate n)"
    by (simp add: predict_def activation_def gt_zero_def cmp_zero_def)
  ultimately show ?thesis by simp
qed

theorem predict_before_fit_witness:
  "[PyInt 1, PyInt 2 :: real pynum] \<noteq> []
   \<and> predict exact (init (PyFloat (1 / 100)) 1000) [PyInt 1, PyInt 2]
       = (Inl AttributeError, init (PyFloat (1 / 100)) 1000)"
  using predict_before_fit [of "[PyInt 1, PyInt 2]" exact "PyFloat (1 / 100)" 1000] by simp

text \<open>
  Claim C8 as stated fails: on a fresh instance the empty input is answered with
  \<open>-1\<close>, and a non-empty input raises \<^verbatim>\<open>AttributeError\<close>, not \<^verbatim>\<open>NotTrained\<close>.
\<close>

theorem predict_before_fit_counterexample:
  "fst (predict exact (init (PyFloat (1 / 100)) 1000) []) = Inr (PyInt (- 1))
   \<and> fst (predict exact (init (PyFloat (1 / 100)) 1000) [PyInt 1, PyInt 2]) = Inl AttributeError
   \<and> fst (predict exact (init (PyFloat (1 / 100)) 1000) [PyInt 1, PyInt 2]) \<noteq> Inl NotTrained"
  by (simp add: predict_def init_def activation_def gt_zero_def cmp_zero_def upt_conv_Cons)

section \<open>Training\<close>

text \<open>
  Claim C5, as the code has it. \<^verbatim>\<open>fit\<close> on an empty list of samples raises
  Python's \<^verbatim>\<open>IndexError\<close> at \<^verbatim>\<open>X[0]\<close>, before any attribute is assigned.
\<close>

theorem fit_empty_samples: "fit F self [] y rnd = (Inl IndexError, self)"
  by (simp add: fit_def)

text \<open>
  Claim C5 as stated fails: the error of \<^verbatim>\<open>fit\<close> on empty samples is not
  \<^verbatim>\<open>InvalidInput\<close>.
\<close>

theorem fit_empty_samples_not_InvalidInput:
  "fst (fit exact (init (PyFloat (1 / 100)) 1000) [] [] (\<lambda>i. 0)) \<noteq> Inl InvalidInput"
  by (simp add: fit_def)

lemma update_weights_loop_Cons:
  "update_weights_loop F X y (i # is) ok s =
     (case fst (predict F s (X ! i)) of
        Inl e \<Rightarrow> (Inl e, s)
      | Inr y_hat \<Rightarrow>
          if i < length y then
            (case py_sub F (y ! i) y_hat of
               Inl e \<Rightarrow> (Inl e, s)
             | Inr error \<Rightarrow>
                 if ne_zero F error then
                   (case update_weights_inner F (X ! i) error [0..<length (X ! i)] s of
                      (Inl e, s2) \<Rightarrow> (Inl e, s2)
                    | (Inr u, s2) \<Rightarrow> update_weights_loop F X y is False s2)
                 else update_weights_loop F X y is ok s)
          else (Inl IndexError, s))"
proof -
  obtain r s1 where p: "predict F s (X ! i) = (r, s1)" by (cases "predict F s (X ! i)")
  have "s1 = s" using predict_state [of F s "X ! i"] p by simp
  then show ?thesis using p by (cases r) simp_all
qed

declare update_weights_loop.simps(2) [simp del]

text \<open>
  What the inner loop keeps true of the instance, the pass over the samples and the
  loop of \<^verbatim>\<open>fit\<close> keep true as well.
\<close>

lemma update_weights_loop_preserves:
  assumes inner: "\<And>x d js s. P s \<Longrightarrow> P (snd (update_weights_inner F x d js s))"
    and "P s"
  shows "P (snd (update_weights_loop F X y is ok s))"
  using assms(2)
proof (induction "is" arbitrary: ok s)
  case Nil
  then show ?case by simp
next
  case (Cons i "is")
  note step = update_weights_loop_Cons [of F X y i "is" ok s]
  show ?case
  proof (cases "fst (predict F s (X ! i))")
    case (Inl e)
    then show ?thesis using Cons.prems by (simp add: step)
  next
    case (Inr y_hat)
    show ?thesis
    proof (cases "i < length y")
      case False
      then show ?thesis using Cons.prems Inr by (simp add: step)
    next
      case True
      show ?thesis
      proof (cases "py_sub F (y ! i) y_hat")
        case (Inl e)
        then show ?thesis using Cons.prems Inr True by (simp add: step)
      next
        case d: (Inr d)
        show ?thesis
        proof (cases "ne_zero F d")
          case False
          then show ?thesis
            using Cons.IH [OF Cons.prems, of ok] Inr True d by (simp add: step)
        next
          case nz: True
          obtain r2 s2 where
            u: "update_weights_inner F (X ! i) d [0..<length (X ! i)] s = (r2, s2)"
            by (cases "update_weights_inner F (X ! i) d [0..<length (X ! i)] s")
          have P2: "P s2"
            using inner [OF Cons.prems, of "X ! i" d "[0..<length (X ! i)]"] u by simp
          show ?thesis
            using Inr True d nz u P2 Cons.IH [OF P2, of False]
            by (cases r2) (simp_all add: step)
        qed
      qed
    qed
  qed
qed

lemma update_weights_inner_frame:
  "lr (snd (update_weights_inner F x d js s)) = lr s
   \<and> n_iters (snd (update_weights_inner F x d js s)) = n_iters s
   \<and> priv_iterations (snd (update_weights_inner F x d js s)) = priv_iterations s"
  by (induction js arbitrary: s) (simp_all split: option.splits sum.splits)

lemma update_weights_inner_length:
  "weights s = Some w \<Longrightarrow>
   \<exists>w'. weights (snd (update_weights_inner F x d js s)) = Some w' \<and> length w' = length w"
proof (induction js arbitrary: s w)
  case Nil
  then show ?case by simp
next
  case (Cons j js)
  have step: "\<exists>w'. weights (snd (update_weights_inner F x d js
      (s\<lparr>weights := Some (w[j := c])\<rparr>))) = Some w' \<and> length w' = length w" for c
    using Cons.IH [of "s\<lparr>weights := Some (w[j := c])\<rparr>" "w[j := c]"] by simp
  show ?case
    using Cons.prems step by (simp split: sum.splits)
qed

lemma update_weights_loop_frame:
  "lr (snd (update_weights_loop F X y is ok s)) = lr s
   \<and> n_iters (snd (update_weights_loop F X y is ok s)) = n_iters s
   \<and> priv_iterations (snd (update_weights_loop F X y is ok s)) = priv_iterations s"
proof -
  define P where "P = (\<lambda>t :: 'a perceptron.
    lr t = lr s \<and> n_iters t = n_iters s \<and> priv_iterations t = priv_iterations s)"
  have "P (snd (update_weights_loop F X y is ok s))"
  proof (rule update_weights_loop_preserves)
    show "P s" by (simp add: P_def)
    show "P (snd (update_weights_inner F x d js t))" if "P t" for x d js t
      using that update_weights_inner_frame [of F x d js t] by (simp add: P_def)
  qed
  then show ?thesis by (simp add: P_def)
qed

lemma update_weights_loop_length:
  assumes "weights s = Some w"
  shows "\<exists>w'. weights (snd (update_weights_loop F X y is ok s)) = Some w' \<and> length w' = length w"
proof -
  define P where "P = (\<lambda>t :: 'a perceptron. \<exists>w'. weights t = Some w' \<and> length w' = length w)"
  have "P (snd (update_weights_loop F X y is ok s))"
  proof (rule update_weights_loop_preserves)
    show "P s" using assms by (simp add: P_def)
    show "P (snd (update_weights_inner F x d js t))" if "P t" for x d js t
      using that update_weights_inner_length [of t _ F x d js] by (auto simp: P_def)
  qed
  then show ?thesis by (simp add: P_def)
qed

lemma fit_loop_invariant:
  "weights s = Some w \<Longrightarrow>
   lr (snd (fit_loop F k s X y)) = lr s
   \<and> n_iters (snd (fit_loop F k s X y)) = n_iters s
   \<and> (\<exists>w'. weights (snd (fit_loop F k s X y)) = Some w' \<and> length w' = length w)
   \<and> priv_iterations (snd (fit_loop F k s X y)) \<le> priv_iterations s + int k
   \<and> (if k = 0 then priv_iterations s else priv_iterations s + 1)
        \<le> priv_iterations (snd (fit_loop F k s X y))"
proof (induction k arbitrary: s w)
  case 0
  then show ?case by simp
next
  case (Suc k)
  let ?s = "s\<lparr>priv_iterations := priv_iterations s + 1\<rparr>"
  obtain r s1 where u: "update_weights F ?s X y = (r, s1)" by (cases "update_weights F ?s X y")
  have f1: "lr s1 = lr s \<and> n_iters s1 = n_iters s \<and> priv_iterations s1 = priv_iterations s + 1"
    using update_weights_loop_frame [of F X y "[0..<length X]" True ?s] u
    by (simp add: update_weights_def)
  have "weights ?s = Some w" using Suc.prems by simp
  then obtain w1 where w1: "weights s1 = Some w1" "length w1 = length w"
    using update_weights_loop_length [of ?s w F X y "[0..<length X]" True] u
    by (auto simp: update_weights_def)
  show ?case
  proof (cases r)
    case (Inl e)
    then show ?thesis using u f1 w1 by simp
  next
    case (Inr changed)
    show ?thesis
    proof (cases changed)
      case False
      then show ?thesis using u Inr f1 w1 by simp
    next
      case True
      have "fit_loop F (Suc k) s X y = fit_loop F k s1 X y"
        using u Inr True by simp
      then show ?thesis
        using Suc.IH [OF w1(1)] f1 w1 by (auto split: if_splits)
    qed
  qed
qed

text \<open>
  Claim C4. For a non-empty list of samples and a positive \<^verbatim>\<open>n_iters\<close>, when
  \<^verbatim>\<open>fit\<close> is left (by returning, or by an exception) the weight list has one
  entry more than the first sample has features, and the iteration counter is at
  least 1 and at most \<^verbatim>\<open>n_iters\<close>.
\<close>

theorem fit_sizes_weights_and_caps_iterations:
  assumes "X \<noteq> []" and "0 < n_iters self"
  shows "(\<exists>w. weights (snd (fit F self X y rnd)) = Some w \<and> length w = length (hd X) + 1)
    \<and> 1 \<le> iterations (snd (fit F self X y rnd))
    \<and> iterations (snd (fit F self X y rnd)) \<le> n_iters self"
proof -
  obtain x0 rest where X: "X = x0 # rest" using assms(1) by (cases X) auto
  define s0 where "s0 = self\<lparr>weights := Some (map (\<lambda>i. PyFloat (rnd i)) [0..<length x0 + 1]),
    priv_iterations := 0\<rparr>"
  define k where "k = nat (n_iters self)"
  define s' where "s' = snd (fit_loop F k s0 (map (\<lambda>x. PyInt 1 # x) X) y)"
  have fit: "snd (fit F self X y rnd) = s'"
    unfolding s'_def k_def s0_def by (simp add: fit_def X)
  have w: "weights s0 = Some (map (\<lambda>i. PyFloat (rnd i)) [0..<length x0 + 1])"
    by (simp add: s0_def)
  have k: "k \<noteq> 0" "int k = n_iters self"
    using assms(2) by (simp_all add: k_def)
  have s0: "priv_iterations s0 = 0" by (simp add: s0_def)
  from fit_loop_invariant [OF w, of F k "map (\<lambda>x. PyInt 1 # x) X" y]
  have "(\<exists>w'. weights s' = Some w' \<and> length w' = length x0 + 1)
    \<and> priv_iterations s' \<le> n_iters self \<and> 1 \<le> priv_iterations s'"
    unfolding s'_def [symmetric] using k s0 by simp
  then show ?thesis
    unfolding fit iterations_def by (simp add: X)
qed

theorem fit_sizes_weights_and_caps_iterations_witness:
  "[[PyInt 2, PyInt 2 :: real pynum]] \<noteq> [] \<and> 0 < n_iters (init (PyFloat (1 / 100 :: real)) 1000)
   \<and> (\<exists>w. weights (snd (fit exact (init (PyFloat (1 / 100)) 1000) [[PyInt 2, PyInt 2]] [PyInt 1]
          (\<lambda>i. 1 / 2))) = Some w
        \<and> length w = 3)
   \<and> 1 \<le> iterations (snd (fit exact (init (PyFloat (1 / 100)) 1000) [[PyInt 2, PyInt 2]]
          [PyInt 1] (\<lambda>i. 1 / 2)))
   \<and> iterations (snd (fit exact (init (PyFloat (1 / 100)) 1000) [[PyInt 2, PyInt 2]]
          [PyInt 1] (\<lambda>i. 1 / 2))) \<le> 1000"
  using fit_sizes_weights_and_caps_iterations
    [of "[[PyInt 2, PyInt 2]]" "init (PyFloat (1 / 100)) 1000" exact "[PyInt 1]" "\<lambda>i. 1 / 2"]
  by (simp add: init_def numeral_3_eq_3)

section \<open>Epochs\<close>

lemma fit_unfold:
  "X \<noteq> [] \<Longrightarrow> fit F self X y rnd = fit_loop F (nat (n_iters self)) (fit_start self X rnd) (augment X) y"
  by (cases X) (simp_all add: fit_def fit_start_def augment_def)

lemma fit_loop_Suc:
  "fit_loop F (Suc k) self X y =
     (case epoch F self X y of
        (Inl e, self1) \<Rightarrow> (Inl e, self1)
      | (Inr changed, self1) \<Rightarrow>
          if \<not> changed then (Inr (), self1) else fit_loop F k self1 X y)"
  by (simp add: epoch_def)

lemma after_epochs_0: "after_epochs F 0 s X y = s"
  by (simp add: after_epochs_def)

lemma after_epochs_Suc: "after_epochs F (Suc k) s X y = snd (epoch F (after_epochs F k s X y) X y)"
  by (simp add: after_epochs_def)

lemma after_epochs_Suc2: "after_epochs F (Suc k) s X y = after_epochs F k (snd (epoch F s X y)) X y"
  by (simp only: after_epochs_def funpow_Suc_right o_apply)

lemma epoch_frame:
  "lr (snd (epoch F s X y)) = lr s \<and> n_iters (snd (epoch F s X y)) = n_iters s
   \<and> priv_iterations (snd (epoch F s X y)) = priv_iterations s + 1"
  using update_weights_loop_frame [of F X y "[0..<length X]" True "s\<lparr>priv_iterations := priv_iterations s + 1\<rparr>"]
  by (simp add: epoch_def update_weights_def)

lemma after_epochs_counter:
  "priv_iterations (after_epochs F k s X y) = priv_iterations s + int k"
  by (induction k) (simp_all add: after_epochs_0 after_epochs_Suc epoch_frame)

lemma fit_loop_misclassifying_epochs:
  assumes "\<forall>j<k. fst (epoch F (after_epochs F j s X y) X y) = Inr True"
  shows "fit_loop F (k + m) s X y = fit_loop F m (after_epochs F k s X y) X y"
  using assms
proof (induction k arbitrary: s)
  case 0
  show ?case by (simp add: after_epochs_0)
next
  case (Suc k)
  obtain r s1 where e: "epoch F s X y = (r, s1)" by (cases "epoch F s X y")
  have "fst (epoch F (after_epochs F 0 s X y) X y) = Inr True"
    using Suc.prems by blast
  then have r: "r = Inr True" using e by (simp add: after_epochs_0)
  have s1: "s1 = snd (epoch F s X y)" using e by simp
  have "\<forall>j<k. fst (epoch F (after_epochs F j s1 X y) X y) = Inr True"
  proof (intro allI impI)
    fix j assume "j < k"
    then have "fst (epoch F (after_epochs F (Suc j) s X y) X y) = Inr True"
      using Suc.prems by simp
    then show "fst (epoch F (after_epochs F j s1 X y) X y) = Inr True"
      by (simp add: after_epochs_Suc2 s1)
  qed
  from Suc.IH [OF this]
  have "fit_loop F (k + m) s1 X y = fit_loop F m (after_epochs F k s1 X y) X y" .
  moreover have "fit_loop F (Suc k + m) s X y = fit_loop F (k + m) s1 X y"
    using e r by (simp add: fit_loop_Suc del: fit_loop.simps)
  ultimately show ?case
    by (simp add: after_epochs_Suc2 s1)
qed

lemma epochs_run_counter:
  "priv_iterations (snd (fit_loop F k s X y)) = priv_iterations s + int (epochs_run F k s X y)"
proof (induction k arbitrary: s)
  case 0
  show ?case by simp
next
  case (Suc k)
  obtain r s1 where e: "epoch F s X y = (r, s1)" by (cases "epoch F s X y")
  have c: "priv_iterations s1 = priv_iterations s + 1"
    using epoch_frame [of F s X y] e by simp
  show ?case
  proof (cases r)
    case (Inl err)
    then show ?thesis using e c by (simp add: fit_loop_Suc del: fit_loop.simps)
  next
    case (Inr changed)
    then show ?thesis
      using e c Suc.IH [of s1] by (simp add: fit_loop_Suc del: fit_loop.simps)
  qed
qed

text \<open>
  Claim C3. Let the epochs of a call of \<^verbatim>\<open>fit\<close> be numbered from 1. If the first
  \<open>k\<close> epochs each report a misclassification and epoch \<open>k + 1\<close> (still within
  \<^verbatim>\<open>n_iters\<close>) reports none, \<^verbatim>\<open>fit\<close> returns normally with the instance as
  epoch \<open>k + 1\<close> left it and the counter at \<open>k + 1\<close>: no further epoch is run.
  If every one of the \<^verbatim>\<open>n_iters\<close> epochs reports a misclassification,
  \<^verbatim>\<open>fit\<close> returns normally after exactly \<^verbatim>\<open>n_iters\<close> epochs.
\<close>

theorem fit_stops_on_clean_epoch_or_at_cap:
  assumes "X \<noteq> []" and "0 \<le> n_iters self"
  shows
    "(let s0 = fit_start self X rnd; X1 = augment X in
       (k < nat (n_iters self)
        \<and> (\<forall>j<k. fst (epoch F (after_epochs F j s0 X1 y) X1 y) = Inr True)
        \<and> fst (epoch F (after_epochs F k s0 X1 y) X1 y) = Inr False
        \<longrightarrow> fit F self X y rnd = (Inr (), after_epochs F (Suc k) s0 X1 y)
          \<and> iterations (snd (fit F self X y rnd)) = int k + 1)
     \<and> ((\<forall>j<nat (n_iters self). fst (epoch F (after_epochs F j s0 X1 y) X1 y) = Inr True)
        \<longrightarrow> fit F self X y rnd = (Inr (), after_epochs F (nat (n_iters self)) s0 X1 y)
          \<and> iterations (snd (fit F self X y rnd)) = n_iters self))"
proof -
  define s0 where "s0 = fit_start self X rnd"
  define X1 where "X1 = augment X"
  define n where "n = nat (n_iters self)"
  have fit: "fit F self X y rnd = fit_loop F n s0 X1 y"
    unfolding s0_def X1_def n_def using assms(1) by (rule fit_unfold)
  have c0: "priv_iterations s0 = 0"
    by (simp add: s0_def fit_start_def)
  have stop: "fit F self X y rnd = (Inr (), after_epochs F (Suc k) s0 X1 y)
      \<and> iterations (snd (fit F self X y rnd)) = int k + 1"
    if k: "k < n"
      and bad: "\<forall>j<k. fst (epoch F (after_epochs F j s0 X1 y) X1 y) = Inr True"
      and good: "fst (epoch F (after_epochs F k s0 X1 y) X1 y) = Inr False"
  proof -
    from k obtain m where "n = Suc (k + m)"
      by (auto dest: less_imp_Suc_add)
    then have n: "n = k + Suc m" by simp
    have "fit_loop F n s0 X1 y = fit_loop F (Suc m) (after_epochs F k s0 X1 y) X1 y"
      unfolding n using bad by (rule fit_loop_misclassifying_epochs)
    also have "\<dots> = (Inr (), snd (epoch F (after_epochs F k s0 X1 y) X1 y))"
      using good
      by (cases "epoch F (after_epochs F k s0 X1 y) X1 y")
        (simp add: fit_loop_Suc del: fit_loop.simps)
    finally have r: "fit F self X y rnd = (Inr (), after_epochs F (Suc k) s0 X1 y)"
      by (simp add: fit after_epochs_Suc)
    show ?thesis
      unfolding r by (simp add: iterations_def after_epochs_counter c0)
  qed
  have cap: "fit F self X y rnd = (Inr (), after_epochs F n s0 X1 y)
      \<and> iterations (snd (fit F self X y rnd)) = n_iters self"
    if bad: "\<forall>j<n. fst (epoch F (after_epochs F j s0 X1 y) X1 y) = Inr True"
  proof -
    have "fit_loop F (n + 0) s0 X1 y = fit_loop F 0 (after_epochs F n s0 X1 y) X1 y"
      using bad by (rule fit_loop_misclassifying_epochs)
    then have r: "fit F self X y rnd = (Inr (), after_epochs F n s0 X1 y)"
      by (simp add: fit)
    show ?thesis
      unfolding r using assms(2) by (simp add: iterations_def after_epochs_counter c0 n_def)
  qed
  show ?thesis
    unfolding Let_def s0_def [symmetric] X1_def [symmetric] n_def [symmetric]
  proof (intro conjI impI)
    assume h: "k < n \<and> (\<forall>j<k. fst (epoch F (after_epochs F j s0 X1 y) X1 y) = Inr True)
        \<and> fst (epoch F (after_epochs F k s0 X1 y) X1 y) = Inr False"
    then have "fit F self X y rnd = (Inr (), after_epochs F (Suc k) s0 X1 y)
      \<and> iterations (snd (fit F self X y rnd)) = int k + 1"
      by (intro stop) simp_all
    then show "fit F self X y rnd = (Inr (), after_epochs F (Suc k) s0 X1 y)"
      and "iterations (snd (fit F self X y rnd)) = int k + 1"
      by blast+
  next
    assume h: "\<forall>j<n. fst (epoch F (after_epochs F j s0 X1 y) X1 y) = Inr True"
    from cap [OF h] show "fit F self X y rnd = (Inr (), after_epochs F n s0 X1 y)"
      and "iterations (snd (fit F self X y rnd)) = n_iters self"
      by blast+
  qed
qed

theorem fit_stops_on_clean_epoch_or_at_cap_witness:
  "[[PyInt 1 :: real pynum]] \<noteq> [] \<and> 0 \<le> n_iters (init (PyFloat (1 / 2 :: real)) 1000)
   \<and> (1 :: nat) < nat (n_iters (init (PyFloat (1 / 2 :: real)) 1000))
   \<and> fst (epoch exact (after_epochs exact 0
          (fit_start (init (PyFloat (1 / 2)) 1000) [[PyInt 1]] (\<lambda>i. 1 / 2))
          (augment [[PyInt 1]]) [PyInt (- 1)]) (augment [[PyInt 1]]) [PyInt (- 1)]) = Inr True
   \<and> fst (epoch exact (after_epochs exact 1
          (fit_start (init (PyFloat (1 / 2)) 1000) [[PyInt 1]] (\<lambda>i. 1 / 2))
          (augment [[PyInt 1]]) [PyInt (- 1)]) (augment [[PyInt 1]]) [PyInt (- 1)]) = Inr False
   \<and> fst (fit exact (init (PyFloat (1 / 2)) 1000) [[PyInt 1]] [PyInt (- 1)] (\<lambda>i. 1 / 2)) = Inr ()
   \<and> iterations (snd (fit exact (init (PyFloat (1 / 2)) 1000) [[PyInt 1]] [PyInt (- 1)]
          (\<lambda>i. 1 / 2))) = 2
   \<and> [[PyInt 1 :: real pynum], [PyInt 1]] \<noteq> [] \<and> 0 \<le> n_iters (init (PyFloat (1 / 2 :: real)) 2)
   \<and> nat (n_iters (init (PyFloat (1 / 2 :: real)) 2)) = 2
   \<and> fst (epoch exact (after_epochs exact 0
          (fit_start (init (PyFloat (1 / 2)) 2) [[PyInt 1], [PyInt 1]] (\<lambda>i. 1 / 2))
          (augment [[PyInt 1], [PyInt 1]]) [PyInt 1, PyInt (- 1)])
          (augment [[PyInt 1], [PyInt 1]]) [PyInt 1, PyInt (- 1)]) = Inr True
   \<and> fst (epoch exact (after_epochs exact 1
          (fit_start (init (PyFloat (1 / 2)) 2) [[PyInt 1], [PyInt 1]] (\<lambda>i. 1 / 2))
          (augment [[PyInt 1], [PyInt 1]]) [PyInt 1, PyInt (- 1)])
          (augment [[PyInt 1], [PyInt 1]]) [PyInt 1, PyInt (- 1)]) = Inr True
   \<and> fst (fit exact (init (PyFloat (1 / 2)) 2) [[PyInt 1], [PyInt 1]] [PyInt 1, PyInt (- 1)]
          (\<lambda>i. 1 / 2)) = Inr ()
   \<and> iterations (snd (fit exact (init (PyFloat (1 / 2)) 2) [[PyInt 1], [PyInt 1]]
          [PyInt 1, PyInt (- 1)] (\<lambda>i. 1 / 2))) = 2"
proof -
  let ?p = "init (PyFloat (1 / 2 :: real)) 1000" and ?q = "init (PyFloat (1 / 2 :: real)) 2"
  let ?r = "\<lambda>i :: nat. 1 / 2 :: real"
  let ?X = "[[PyInt 1 :: real pynum]]" and ?y = "[PyInt (- 1) :: real pynum]"
  let ?Z = "[[PyInt 1 :: real pynum], [PyInt 1]]" and ?t = "[PyInt 1, PyInt (- 1) :: real pynum]"
  have a0: "fst (epoch exact (after_epochs exact 0 (fit_start ?p ?X ?r) (augment ?X) ?y)
      (augment ?X) ?y) = Inr True"
    by code_simp
  have a1: "fst (epoch exact (after_epochs exact 1 (fit_start ?p ?X ?r) (augment ?X) ?y)
      (augment ?X) ?y) = Inr False"
    by code_simp
  have b0: "fst (epoch exact (after_epochs exact 0 (fit_start ?q ?Z ?r) (augment ?Z) ?t)
      (augment ?Z) ?t) = Inr True"
    by code_simp
  have b1: "fst (epoch exact (after_epochs exact 1 (fit_start ?q ?Z ?r) (augment ?Z) ?t)
      (augment ?Z) ?t) = Inr True"
    by code_simp
  have ha: "\<forall>j<1 :: nat. fst (epoch exact (after_epochs exact j (fit_start ?p ?X ?r)
      (augment ?X) ?y) (augment ?X) ?y) = Inr True"
    using a0 by simp
  have nq: "nat (n_iters ?q) = Suc (Suc 0)"
    by (simp add: init_def)
  have hb: "\<forall>j<nat (n_iters ?q). fst (epoch exact (after_epochs exact j (fit_start ?q ?Z ?r)
      (augment ?Z) ?t) (augment ?Z) ?t) = Inr True"
    unfolding nq using b0 b1 by (simp add: less_Suc_eq)
  have pa: "?X \<noteq> []" "0 \<le> n_iters ?p" "(1 :: nat) < nat (n_iters ?p)"
    by (simp_all add: init_def)
  have pb: "?Z \<noteq> []" "0 \<le> n_iters ?q"
    by (simp_all add: init_def)
  note ta = fit_stops_on_clean_epoch_or_at_cap
    [where X = ?X and self = ?p and rnd = ?r and k = 1 and y = ?y and F = exact,
     unfolded Let_def, OF pa(1) pa(2), THEN conjunct1, THEN mp, OF conjI [OF pa(3) conjI [OF ha a1]]]
  note tb = fit_stops_on_clean_epoch_or_at_cap
    [where X = ?Z and self = ?q and rnd = ?r and k = 0 and y = ?t and F = exact,
     unfolded Let_def, OF pb, THEN conjunct2, THEN mp, OF hb]
  have ra1: "fst (fit exact ?p ?X ?y ?r) = Inr ()"
    using ta [THEN conjunct1] by simp
  have ra2: "iterations (snd (fit exact ?p ?X ?y ?r)) = 2"
    using ta [THEN conjunct2] by simp
  have rb1: "fst (fit exact ?q ?Z ?t ?r) = Inr ()"
    using tb [THEN conjunct1] by simp
  have rb2: "iterations (snd (fit exact ?q ?Z ?t ?r)) = 2"
    using tb [THEN conjunct2] by (simp add: init_def)
  have nq2: "nat (n_iters ?q) = 2"
    by (simp add: init_def)
  from pa a0 a1 ra1 ra2 pb nq2 b0 b1 rb1 rb2 show ?thesis by blast
qed

text \<open>
  Claim C7. \<^verbatim>\<open>iterations\<close> is 0 on an instance that \<^verbatim>\<open>fit\<close> was never called
  on. After a call of \<^verbatim>\<open>fit\<close> on non-empty samples it is the number of epochs
  that call executed, and the whole outcome of the call is the same whatever the
  counter and the weights were before it: nothing accumulates across calls.
\<close>

theorem epochs_of_last_fit_only:
  "iterations (init learning_rate n) = 0
   \<and> (X \<noteq> [] \<longrightarrow>
        iterations (snd (fit F self X y rnd))
          = int (epochs_run F (nat (n_iters self)) (fit_start self X rnd) (augment X) y)
        \<and> fit F (self\<lparr>priv_iterations := c, weights := v\<rparr>) X y rnd = fit F self X y rnd)"
proof -
  have "iterations (init learning_rate n) = 0"
    by (simp add: iterations_def init_def)
  moreover have "iterations (snd (fit F self X y rnd))
          = int (epochs_run F (nat (n_iters self)) (fit_start self X rnd) (augment X) y)"
    if "X \<noteq> []"
    using that by (simp add: fit_unfold iterations_def epochs_run_counter fit_start_def)
  moreover have "fit F (self\<lparr>priv_iterations := c, weights := v\<rparr>) X y rnd = fit F self X y rnd"
    if "X \<noteq> []"
    using that by (cases X) (simp_all add: fit_def)
  ultimately show ?thesis by blast
qed

theorem epochs_of_last_fit_only_witness:
  "[[PyInt 1 :: real pynum]] \<noteq> []
   \<and> iterations (snd (fit exact \<lparr>lr = PyFloat (1 / 2), n_iters = 1000, priv_iterations = 5,
        weights = Some [PyFloat 3, PyFloat 4]\<rparr> [[PyInt 1]] [PyInt (- 1)] (\<lambda>i. 1 / 2))) = 2
   \<and> fit exact (\<lparr>lr = PyFloat (1 / 2), n_iters = 1000, priv_iterations = 5,
          weights = Some [PyFloat 3, PyFloat 4]\<rparr>
        \<lparr>priv_iterations := 0, weights := None\<rparr>) [[PyInt 1]] [PyInt (- 1)] (\<lambda>i. 1 / 2)
     = fit exact \<lparr>lr = PyFloat (1 / 2), n_iters = 1000, priv_iterations = 5,
          weights = Some [PyFloat 3, PyFloat 4]\<rparr>
        [[PyInt 1]] [PyInt (- 1)] (\<lambda>i. 1 / 2)"
proof -
  let ?p = "\<lparr>lr = PyFloat (1 / 2 :: real), n_iters = 1000, priv_iterations = 5,
      weights = Some [PyFloat 3, PyFloat (4 :: real)]\<rparr>"
  let ?r = "\<lambda>i :: nat. 1 / 2 :: real"
  let ?X = "[[PyInt 1 :: real pynum]]" and ?y = "[PyInt (- 1) :: real pynum]"
  have h: "?X \<noteq> []" by simp
  have e: "epochs_run exact (nat (n_iters ?p)) (fit_start ?p ?X ?r) (augment ?X) ?y = 2"
    by code_simp
  note t = epochs_of_last_fit_only
    [where X = ?X and self = ?p and rnd = ?r and y = ?y and c = 0 and v = None and F = exact,
     THEN conjunct2, rule_format, OF h]
  from t have "iterations (snd (fit exact ?p ?X ?y ?r)) = 2"
    unfolding e by simp
  with t h show ?thesis by blast
qed

section \<open>Mismatched lengths\<close>

lemma binop_overflow:
  "binop F iop fop a b = Inl e \<Longrightarrow> index_or_overflow F e"
  by (auto simp: binop_def as_float_def index_or_overflow_def overflows_def
      split: pynum.splits option.splits sum.splits)

lemma sum_step_overflow:
  "sum_step F acc p = Inl e \<Longrightarrow> index_or_overflow F e"
proof -
  assume a: "sum_step F acc p = Inl e"
  then have "sum_add F acc p = None" and "e = OverflowError"
    by (simp_all add: sum_step_def split: option.splits)
  then have "overflows F" and "e = OverflowError"
    unfolding overflows_def by blast+
  then show ?thesis by (simp add: index_or_overflow_def)
qed

lemma py_arith_overflow:
  "py_add F a b = Inl e \<Longrightarrow> index_or_overflow F e"
  "py_sub F a b = Inl e \<Longrightarrow> index_or_overflow F e"
  "py_mul F a b = Inl e \<Longrightarrow> index_or_overflow F e"
  by (auto simp: py_add_def py_sub_def py_mul_def dest: binop_overflow)

lemma index_or_overflow_cases:
  "index_or_overflow F e \<Longrightarrow> e = IndexError \<or> e = OverflowError"
  "index_or_overflow F e \<Longrightarrow> \<not> overflows F \<Longrightarrow> e = IndexError"
  by (auto simp: index_or_overflow_def)

lemma weighted_sum_error:
  "weights self = Some w \<Longrightarrow> weighted_sum F self X is acc = Inl e \<Longrightarrow> index_or_overflow F e"
proof (induction "is" arbitrary: acc)
  case Nil
  then show ?case by simp
next
  case (Cons i "is")
  then show ?case
    by (auto simp: index_or_overflow_def [of F IndexError] split: if_splits sum.splits
        dest: py_arith_overflow sum_step_overflow)
qed

lemma weighted_sum_long_input:
  "weights self = Some w \<Longrightarrow> \<exists>i \<in> set is. \<not> i < length w \<Longrightarrow>
   \<exists>e. weighted_sum F self X is acc = Inl e"
proof (induction "is" arbitrary: acc)
  case Nil
  then show ?case by simp
next
  case (Cons i "is")
  show ?case
  proof (cases "i < length w")
    case False
    then show ?thesis using Cons.prems(1) by simp
  next
    case True
    then have "\<exists>i \<in> set is. \<not> i < length w" using Cons.prems(2) by auto
    from Cons.IH [OF Cons.prems(1) this] show ?thesis
      using Cons.prems(1) True by (simp split: sum.splits)
  qed
qed

lemma predict_error:
  "weights self = Some w \<Longrightarrow> fst (predict F self X) = Inl e \<Longrightarrow> index_or_overflow F e"
  by (auto simp: predict_def split: sum.splits dest: weighted_sum_error)

lemma predict_long_input:
  assumes "weights self = Some w" and "length w < length X"
  shows "\<exists>e. fst (predict F self X) = Inl e \<and> index_or_overflow F e"
proof -
  have "\<exists>i \<in> set [0..<length X]. \<not> i < length w"
    using assms(2) by (intro bexI [of _ "length w"]) simp_all
  from weighted_sum_long_input [OF assms(1) this]
  obtain e where e: "weighted_sum F self X [0..<length X] (PyInt 0, sum_hidden F) = Inl e" by blast
  then have "fst (predict F self X) = Inl e" by (simp add: predict_def)
  then show ?thesis using predict_error [OF assms(1)] by blast
qed

lemma update_weights_inner_error:
  "weights s = Some w \<Longrightarrow> fst (update_weights_inner F x d js s) = Inl e \<Longrightarrow>
   index_or_overflow F e"
proof (induction js arbitrary: s w)
  case Nil
  then show ?case by simp
next
  case (Cons j js)
  have step: "fst (update_weights_inner F x d js (s\<lparr>weights := Some (w[j := c])\<rparr>)) = Inl e
      \<Longrightarrow> index_or_overflow F e" for c
    using Cons.IH [of "s\<lparr>weights := Some (w[j := c])\<rparr>" "w[j := c]"] by simp
  show ?case
    using Cons.prems step
    by (auto simp: index_or_overflow_def [of F IndexError] split: if_splits sum.splits
        dest: py_arith_overflow)
qed

lemma update_weights_loop_error:
  "weights s = Some w \<Longrightarrow> fst (update_weights_loop F X y is ok s) = Inl e \<Longrightarrow>
   index_or_overflow F e"
proof (induction "is" arbitrary: ok s w)
  case Nil
  then show ?case by simp
next
  case (Cons i "is")
  note step = update_weights_loop_Cons [of F X y i "is" ok s]
  show ?case
  proof (cases "fst (predict F s (X ! i))")
    case (Inl e')
    then have "index_or_overflow F e'" by (rule predict_error [OF Cons.prems(1)])
    then show ?thesis using Cons.prems(2) Inl by (simp add: step)
  next
    case (Inr y_hat)
    show ?thesis
    proof (cases "i < length y")
      case False
      then show ?thesis
        using Cons.prems(2) Inr by (simp add: step index_or_overflow_def)
    next
      case True
      show ?thesis
      proof (cases "py_sub F (y ! i) y_hat")
        case (Inl e')
        then have "index_or_overflow F e'" by (rule py_arith_overflow)
        then show ?thesis using Cons.prems(2) Inr True Inl by (simp add: step)
      next
        case d: (Inr d)
        show ?thesis
        proof (cases "ne_zero F d")
          case False
          then have "fst (update_weights_loop F X y is ok s) = Inl e"
            using Cons.prems(2) Inr True d by (simp add: step)
          with Cons.prems(1) show ?thesis by (rule Cons.IH)
        next
          case nz: True
          obtain r2 s2 where
            u: "update_weights_inner F (X ! i) d [0..<length (X ! i)] s = (r2, s2)"
            by (cases "update_weights_inner F (X ! i) d [0..<length (X ! i)] s")
          obtain w2 where w2: "weights s2 = Some w2"
            using update_weights_inner_length [OF Cons.prems(1),
                of F "X ! i" d "[0..<length (X ! i)]"] u by auto
          show ?thesis
          proof (cases r2)
            case (Inl e')
            then have "index_or_overflow F e'"
              using update_weights_inner_error [OF Cons.prems(1),
                  of F "X ! i" d "[0..<length (X ! i)]" e'] u by simp
            then show ?thesis using Cons.prems(2) Inr True d nz u Inl by (simp add: step)
          next
            case (Inr u')
            then have "fst (update_weights_loop F X y is False s2) = Inl e"
              using Cons.prems(2) \<open>fst (predict F s (X ! i)) = Inr y_hat\<close> True d nz u
              by (simp add: step)
            with w2 show ?thesis by (rule Cons.IH)
          qed
        qed
      qed
    qed
  qed
qed

lemma fit_loop_error:
  "weights s = Some w \<Longrightarrow> fst (fit_loop F k s X y) = Inl e \<Longrightarrow> index_or_overflow F e"
proof (induction k arbitrary: s w)
  case 0
  then show ?case by simp
next
  case (Suc k)
  let ?s = "s\<lparr>priv_iterations := priv_iterations s + 1\<rparr>"
  obtain r s1 where u: "update_weights F ?s X y = (r, s1)" by (cases "update_weights F ?s X y")
  have ws: "weights ?s = Some w" using Suc.prems(1) by simp
  obtain w1 where w1: "weights s1 = Some w1"
    using update_weights_loop_length [OF ws, of F X y "[0..<length X]" True] u
    by (auto simp: update_weights_def)
  show ?case
  proof (cases r)
    case (Inl e')
    then have "index_or_overflow F e'"
      using update_weights_loop_error [OF ws, of F X y "[0..<length X]" True e'] u
      by (simp add: update_weights_def)
    then show ?thesis using Suc.prems(2) u Inl by simp
  next
    case (Inr changed)
    show ?thesis
    proof (cases changed)
      case False
      then show ?thesis using Suc.prems(2) u Inr by simp
    next
      case True
      then have "fst (fit_loop F k s1 X y) = Inl e"
        using Suc.prems(2) u Inr by simp
      with w1 show ?thesis by (rule Suc.IH)
    qed
  qed
qed

lemma update_weights_loop_short_labels:
  "\<exists>i \<in> set is. \<not> i < length y \<Longrightarrow> \<exists>e. fst (update_weights_loop F X y is ok s) = Inl e"
proof (induction "is" arbitrary: ok s)
  case Nil
  then show ?case by simp
next
  case (Cons i "is")
  note step = update_weights_loop_Cons [of F X y i "is" ok s]
  show ?case
  proof (cases "i < length y")
    case False
    then show ?thesis by (simp add: step split: sum.splits)
  next
    case True
    then have rest: "\<exists>i \<in> set is. \<not> i < length y" using Cons.prems by auto
    show ?thesis
      using True Cons.IH [OF rest]
      by (simp add: step split: sum.splits prod.splits)
  qed
qed

lemma update_weights_loop_take_labels:
  "\<forall>i \<in> set is. i < n \<Longrightarrow>
   update_weights_loop F X (take n y) is ok s = update_weights_loop F X y is ok s"
proof (induction "is" arbitrary: ok s)
  case Nil
  show ?case by simp
next
  case (Cons i "is")
  then have i: "i < n" and rest: "\<forall>i \<in> set is. i < n" by simp_all
  show ?case
    using i Cons.IH [OF rest]
    by (simp add: update_weights_loop_Cons split: sum.splits prod.splits)
qed

lemma fit_loop_take_labels:
  "fit_loop F k s X (take (length X) y) = fit_loop F k s X y"
proof (induction k arbitrary: s)
  case 0
  show ?case by simp
next
  case (Suc k)
  have "update_weights F s' X (take (length X) y) = update_weights F s' X y" for s'
    unfolding update_weights_def
    by (rule update_weights_loop_take_labels) simp
  then show ?case using Suc.IH by (simp split: sum.splits prod.splits)
qed

text \<open>
  Claim C6, as the code has it. The source validates no lengths and raises no
  \<^verbatim>\<open>InvalidInput\<close>. With fewer labels than samples (and at least one epoch to
  run) \<^verbatim>\<open>fit\<close> raises: Python's \<^verbatim>\<open>IndexError\<close>, or the \<^verbatim>\<open>OverflowError\<close>
  of an operation that comes before the missing label is read; in an arithmetic
  where no conversion and no sum overflows it is \<^verbatim>\<open>IndexError\<close>. Labels beyond
  the number of samples are never read, so \<^verbatim>\<open>fit\<close> behaves as if they were cut
  off. \<^verbatim>\<open>predict\<close> raises in the same way on an input longer than the weight
  list, and on an input that is no longer than the weight list it does what the
  prediction of the specification does on the indices of the input alone: the
  surplus weights are ignored.
\<close>

theorem length_mismatch_behaviour:
  "(length y < length X \<and> 0 < n_iters self \<longrightarrow>
      (fst (fit F self X y rnd) = Inl IndexError \<or> fst (fit F self X y rnd) = Inl OverflowError)
      \<and> (\<not> overflows F \<longrightarrow> fst (fit F self X y rnd) = Inl IndexError))
   \<and> fit F self X (take (length X) y) rnd = fit F self X y rnd
   \<and> (weights self = Some w \<and> length w < length x \<longrightarrow>
        (fst (predict F self x) = Inl IndexError \<or> fst (predict F self x) = Inl OverflowError)
        \<and> (\<not> overflows F \<longrightarrow> fst (predict F self x) = Inl IndexError))
   \<and> (weights self = Some w \<and> length x \<le> length w \<longrightarrow>
        fst (predict F self x) = spec_predict F x w)"
proof -
  have short: "\<exists>e. fst (fit F self X y rnd) = Inl e \<and> index_or_overflow F e"
    if len: "length y < length X" and n: "0 < n_iters self"
  proof -
    have X: "X \<noteq> []" using len by auto
    obtain k where k: "nat (n_iters self) = Suc k"
      using n by (cases "nat (n_iters self)") simp_all
    define s0 where "s0 = fit_start self X rnd"
    define s1 where "s1 = s0\<lparr>priv_iterations := priv_iterations s0 + 1\<rparr>"
    have fit: "fit F self X y rnd = fit_loop F (Suc k) s0 (augment X) y"
      using fit_unfold [OF X, of F self y rnd] by (simp add: k s0_def)
    have "\<exists>i \<in> set [0..<length (augment X)]. \<not> i < length y"
      using len by (intro bexI [of _ "length y"]) (simp_all add: augment_def)
    from update_weights_loop_short_labels [OF this, of F "augment X" True s1]
    obtain e where e: "fst (update_weights F s1 (augment X) y) = Inl e"
      by (auto simp: update_weights_def)
    then have f: "fst (fit_loop F (Suc k) s0 (augment X) y) = Inl e"
      by (cases "update_weights F s1 (augment X) y") (simp add: s1_def)
    moreover have "weights s0 = Some (map (\<lambda>i. PyFloat (rnd i)) [0..<length (hd X) + 1])"
      by (simp add: s0_def fit_start_def)
    ultimately have "index_or_overflow F e"
      using fit_loop_error by blast
    with f show ?thesis
      by (simp add: fit)
  qed
  have ignore: "fit F self X (take (length X) y) rnd = fit F self X y rnd"
  proof (cases X)
    case Nil
    then show ?thesis by (simp add: fit_def)
  next
    case (Cons x0 rest)
    then have X: "X \<noteq> []" by simp
    have "length (augment X) = length X" by (simp add: augment_def)
    then show ?thesis
      using fit_loop_take_labels [of F "nat (n_iters self)" "fit_start self X rnd" "augment X" y]
      by (simp add: fit_unfold [OF X])
  qed
  have long: "\<exists>e. fst (predict F self x) = Inl e \<and> index_or_overflow F e"
    if "weights self = Some w" and "length w < length x"
    using that by (rule predict_long_input)
  have fits: "fst (predict F self x) = spec_predict F x w"
    if "weights self = Some w" and "length x \<le> length w"
    using that by (rule predict_spec)
  from short ignore long fits show ?thesis
    by (auto dest: index_or_overflow_cases)
qed

theorem length_mismatch_behaviour_witness:
  "length [PyInt 1 :: real pynum] < length [[PyInt 1 :: real pynum], [PyInt 1]]
   \<and> 0 < n_iters (init (PyFloat (1 / 2 :: real)) 1000)
   \<and> \<not> overflows exact
   \<and> fst (fit exact (init (PyFloat (1 / 2)) 1000) [[PyInt 1], [PyInt 1]] [PyInt 1] (\<lambda>i. 1 / 2))
       = Inl IndexError
   \<and> weights \<lparr>lr = PyFloat (1 / 2 :: real), n_iters = 1000, priv_iterations = 1,
         weights = Some [PyFloat 1, PyFloat (1 :: real)]\<rparr>
       = Some [PyFloat 1, PyFloat 1]
   \<and> length [PyFloat 1, PyFloat (1 :: real)] < length [PyInt 1, PyInt 1, PyInt 1 :: real pynum]
   \<and> fst (predict exact \<lparr>lr = PyFloat (1 / 2), n_iters = 1000, priv_iterations = 1,
         weights = Some [PyFloat 1, PyFloat 1]\<rparr> [PyInt 1, PyInt 1, PyInt 1]) = Inl IndexError
   \<and> length [PyInt (- 3) :: real pynum] \<le> length [PyFloat 1, PyFloat (1 :: real)]
   \<and> spec_predict exact [PyInt (- 3)] [PyFloat 1, PyFloat 1] = Inr (PyInt (- 1))
   \<and> fst (predict exact \<lparr>lr = PyFloat (1 / 2), n_iters = 1000, priv_iterations = 1,
         weights = Some [PyFloat 1, PyFloat 1]\<rparr> [PyInt (- 3)]) = Inr (PyInt (- 1))"
proof -
  let ?p = "\<lparr>lr = PyFloat (1 / 2 :: real), n_iters = 1000, priv_iterations = 1,
      weights = Some [PyFloat 1, PyFloat (1 :: real)]\<rparr>"
  let ?q = "init (PyFloat (1 / 2 :: real)) 1000"
  have total: "\<not> overflows exact"
    by (simp add: overflows_def exact_def)
  have h1: "length [PyInt 1 :: real pynum] < length [[PyInt 1 :: real pynum], [PyInt 1]]
      \<and> 0 < n_iters ?q"
    by (simp add: init_def)
  have a: "fst (fit exact ?q [[PyInt 1], [PyInt 1]] [PyInt 1] (\<lambda>i. 1 / 2)) = Inl IndexError"
    using length_mismatch_behaviour
      [where X = "[[PyInt 1], [PyInt 1]]" and y = "[PyInt 1]" and self = ?q
         and rnd = "\<lambda>i. 1 / 2" and F = exact,
       THEN conjunct1, THEN mp, OF h1, THEN conjunct2, THEN mp, OF total] .
  have h3: "weights ?p = Some [PyFloat 1, PyFloat 1]
      \<and> length [PyFloat 1, PyFloat (1 :: real)] < length [PyInt 1, PyInt 1, PyInt 1 :: real pynum]"
    by simp
  have b: "fst (predict exact ?p [PyInt 1, PyInt 1, PyInt 1]) = Inl IndexError"
    using length_mismatch_behaviour
      [where self = ?p and w = "[PyFloat 1, PyFloat 1]" and x = "[PyInt 1, PyInt 1, PyInt 1]"
         and F = exact,
       THEN conjunct2, THEN conjunct2, THEN conjunct1, THEN mp, OF h3,
       THEN conjunct2, THEN mp, OF total] .
  have h4: "weights ?p = Some [PyFloat 1, PyFloat 1]
      \<and> length [PyInt (- 3) :: real pynum] \<le> length [PyFloat 1, PyFloat (1 :: real)]"
    by simp
  have sp: "spec_predict exact [PyInt (- 3)] [PyFloat 1, PyFloat 1] = Inr (PyInt (- 1))"
    by code_simp
  have c: "fst (predict exact ?p [PyInt (- 3)]) = Inr (PyInt (- 1))"
    using length_mismatch_behaviour
      [where self = ?p and w = "[PyFloat 1, PyFloat 1]" and x = "[PyInt (- 3)]" and F = exact,
       THEN conjunct2, THEN conjunct2, THEN conjunct2, THEN mp, OF h4]
    by (simp only: sp)
  from h1 total a h3 b h4 sp c show ?thesis by blast
qed

text \<open>
  Claim C6 as stated fails: \<^verbatim>\<open>fit\<close> with two labels for one sample returns
  normally, \<^verbatim>\<open>predict\<close> with one input for two weights returns a label, and the
  error \<^verbatim>\<open>fit\<close> raises for one label and two samples is \<^verbatim>\<open>IndexError\<close>.
\<close>

theorem length_mismatch_not_rejected:
  "fst (fit exact (init (PyFloat (1 / 2)) 1000) [[PyInt 1]] [PyInt 1, PyInt 1] (\<lambda>i. 1 / 2)) = Inr ()
   \<and> fst (predict exact \<lparr>lr = PyFloat (1 / 2), n_iters = 1000, priv_iterations = 1,
         weights = Some [PyFloat 1, PyFloat 1]\<rparr> [PyInt (- 3)]) = Inr (PyInt (- 1))
   \<and> fst (fit exact (init (PyFloat (1 / 2)) 1000) [[PyInt 1], [PyInt 1]] [PyInt 1] (\<lambda>i. 1 / 2))
       = Inl IndexError
   \<and> IndexError \<noteq> InvalidInput"
  by code_simp

section \<open>The update rule\<close>

lemma spec_adjust_length:
  "spec_adjust F eta error ps = Inr cs \<Longrightarrow> length cs = length ps"
  by (induction F eta error ps arbitrary: cs rule: spec_adjust.induct)
     (auto split: sum.splits)

lemma weights_update_same: "weights self = Some w \<Longrightarrow> self\<lparr>weights := Some w\<rparr> = self"
  by (cases self) simp

lemma update_weights_inner_spec:
  assumes "weights self = Some w" and "length x = length w"
  shows "case spec_adjust F (lr self) error (zip (drop k w) (drop k x)) of
           Inl e \<Rightarrow> fst (update_weights_inner F x error [k..<length x] self) = Inl e
         | Inr cs \<Rightarrow>
             update_weights_inner F x error [k..<length x] self
               = (Inr (), self\<lparr>weights := Some (take k w @ cs)\<rparr>)"
  using assms
proof (induction "length x - k" arbitrary: k self w)
  case 0
  then show ?case by (simp add: weights_update_same)
next
  case (Suc n)
  then have k: "k < length x" and kw: "k < length w" by simp_all
  have idx: "[k..<length x] = k # [Suc k..<length x]"
    using k by (simp add: upt_conv_Cons)
  have dx: "drop k x = x ! k # drop (Suc k) x" and dw: "drop k w = w ! k # drop (Suc k) w"
    using k kw by (simp_all add: Cons_nth_drop_Suc)
  have n: "n = length x - Suc k" using Suc.hyps(2) by simp
  show ?case
  proof (cases "py_mul F (lr self) error")
    case (Inl e)
    then show ?thesis unfolding idx dx dw using Suc.prems(1) kw by simp
  next
    case u: (Inr u)
    show ?thesis
    proof (cases "py_mul F u (x ! k)")
      case (Inl e)
      then show ?thesis unfolding idx dx dw using Suc.prems(1) kw u by simp
    next
      case v: (Inr v)
      show ?thesis
      proof (cases "py_add F (w ! k) v")
        case (Inl e)
        then show ?thesis unfolding idx dx dw using Suc.prems(1) kw u v by simp
      next
        case c: (Inr c)
        let ?s = "self\<lparr>weights := Some (w[k := c])\<rparr>"
        have step: "update_weights_inner F x error [k..<length x] self
            = update_weights_inner F x error [Suc k..<length x] ?s"
          unfolding idx using Suc.prems(1) kw u v c by simp
        have ws: "weights ?s = Some (w[k := c])" and len: "length x = length (w[k := c])"
          using Suc.prems(2) by simp_all
        have dr: "drop (Suc k) (w[k := c]) = drop (Suc k) w" by simp
        have tk: "take (Suc k) (w[k := c]) = take k w @ [c]"
          using kw by (simp add: take_Suc_conv_app_nth)
        from Suc.hyps(1) [OF n ws len]
        have ih: "case spec_adjust F (lr self) error (zip (drop (Suc k) w) (drop (Suc k) x)) of
             Inl e \<Rightarrow> fst (update_weights_inner F x error [Suc k..<length x] ?s) = Inl e
           | Inr cs \<Rightarrow>
               update_weights_inner F x error [Suc k..<length x] ?s
                 = (Inr (), self\<lparr>weights := Some (take k w @ c # cs)\<rparr>)"
          by (simp add: dr tk split: sum.splits)
        show ?thesis
          unfolding dx dw step using ih u v c by (simp split: sum.splits)
      qed
    qed
  qed
qed

lemma update_weights_inner_full:
  assumes "weights self = Some w" and "length x = length w"
  shows "case spec_adjust F (lr self) error (zip w x) of
           Inl e \<Rightarrow> fst (update_weights_inner F x error [0..<length x] self) = Inl e
         | Inr cs \<Rightarrow>
             update_weights_inner F x error [0..<length x] self
               = (Inr (), self\<lparr>weights := Some cs\<rparr>)"
  using update_weights_inner_spec [OF assms, of F error 0] by (simp split: sum.splits)

lemma update_weights_loop_spec:
  assumes "weights self = Some w" and "\<forall>x \<in> set X. Suc (length x) = length w"
    and "length y = length X"
  shows "case spec_epoch F (lr self) (zip (drop k X) (drop k y)) seen w of
           Inl e \<Rightarrow>
             fst (update_weights_loop F (augment X) y [k..<length X] (\<not> seen) self) = Inl e
         | Inr (seen', w') \<Rightarrow>
             update_weights_loop F (augment X) y [k..<length X] (\<not> seen) self
               = (Inr seen', self\<lparr>weights := Some w'\<rparr>)"
  using assms(1,2)
proof (induction "length X - k" arbitrary: k self w seen)
  case 0
  then show ?case by (simp add: weights_update_same)
next
  case (Suc n)
  then have k: "k < length X" and ky: "k < length y" using assms(3) by simp_all
  have idx: "[k..<length X] = k # [Suc k..<length X]"
    using k by (simp add: upt_conv_Cons)
  have dx: "drop k X = X ! k # drop (Suc k) X" and dy: "drop k y = y ! k # drop (Suc k) y"
    using k ky by (simp_all add: Cons_nth_drop_Suc)
  have n: "n = length X - Suc k" using Suc.hyps(2) by simp
  let ?x = "PyInt 1 # X ! k"
  have aug: "augment X ! k = ?x" using k by (simp add: augment_def)
  have lenx: "length ?x = length w" using Suc.prems(2) k by simp
  have pf: "fst (predict F self ?x) = spec_predict F ?x w"
    using predict_spec [OF Suc.prems(1), of ?x F] lenx by simp
  have ps: "snd (predict F self ?x) = self" by (rule predict_state)
  note step = update_weights_loop_Cons [of F "augment X" y k "[Suc k..<length X]" "\<not> seen" self]
  show ?case
  proof (cases "spec_predict F ?x w")
    case (Inl e)
    then show ?thesis
      unfolding idx dx dy using pf ps
      by (cases "predict F self ?x") (simp add: step aug spec_sample_def)
  next
    case yh: (Inr y_hat)
    then have pred: "predict F self ?x = (Inr y_hat, self)"
      using pf ps by (cases "predict F self ?x") simp
    show ?thesis
    proof (cases "py_sub F (y ! k) y_hat")
      case (Inl e)
      then show ?thesis
        unfolding idx dx dy using pred yh ky
        by (simp add: step aug spec_sample_def)
    next
      case er: (Inr err)
      show ?thesis
      proof (cases "ne_zero F err")
        case False
        have sample: "spec_sample F (lr self) (X ! k) (y ! k) seen w = Inr (seen, w)"
          using yh er False by (simp add: spec_sample_def)
        have loop: "update_weights_loop F (augment X) y [k..<length X] (\<not> seen) self
            = update_weights_loop F (augment X) y [Suc k..<length X] (\<not> seen) self"
          unfolding idx using pred er False ky by (simp add: step aug)
        from Suc.hyps(1) [OF n Suc.prems(1) Suc.prems(2), where seen = seen]
        show ?thesis
          unfolding dx dy loop by (simp add: sample split: sum.splits prod.splits)
      next
        case True
        from update_weights_inner_full [OF Suc.prems(1) lenx, of F err]
        have inner: "case spec_adjust F (lr self) err (zip w ?x) of
             Inl e \<Rightarrow> fst (update_weights_inner F ?x err [0..<length ?x] self) = Inl e
           | Inr cs \<Rightarrow>
               update_weights_inner F ?x err [0..<length ?x] self
                 = (Inr (), self\<lparr>weights := Some cs\<rparr>)" .
        show ?thesis
        proof (cases "spec_adjust F (lr self) err (zip w ?x)")
          case (Inl e)
          then have sample: "spec_sample F (lr self) (X ! k) (y ! k) seen w = Inl e"
            using yh er True by (simp add: spec_sample_def)
          from inner Inl
          have "fst (update_weights_inner F ?x err [0..<length ?x] self) = Inl e" by simp
          then have "fst (update_weights_loop F (augment X) y [k..<length X] (\<not> seen) self)
              = Inl e"
            unfolding idx using pred er True ky
            by (cases "update_weights_inner F ?x err [0..<length ?x] self")
               (simp add: step aug)
          then show ?thesis unfolding dx dy by (simp add: sample)
        next
          case cs: (Inr cs)
          let ?s = "self\<lparr>weights := Some cs\<rparr>"
          have sample: "spec_sample F (lr self) (X ! k) (y ! k) seen w = Inr (True, cs)"
            using yh er True cs by (simp add: spec_sample_def)
          from inner cs
          have upd: "update_weights_inner F ?x err [0..<length ?x] self = (Inr (), ?s)" by simp
          have loop: "update_weights_loop F (augment X) y [k..<length X] (\<not> seen) self
              = update_weights_loop F (augment X) y [Suc k..<length X] (\<not> True) ?s"
            unfolding idx using pred er True ky upd by (simp add: step aug)
          have lcs: "length cs = length w"
            using spec_adjust_length [OF cs] lenx by simp
          have ws: "weights ?s = Some cs" by simp
          have uni: "\<forall>x \<in> set X. Suc (length x) = length cs"
            using Suc.prems(2) lcs by simp
          from Suc.hyps(1) [OF n ws uni, where seen = True]
          show ?thesis
            unfolding dx dy loop by (simp add: sample split: sum.splits prod.splits)
        qed
      qed
    qed
  qed
qed

lemma update_weights_spec:
  assumes "weights self = Some w" and "\<forall>x \<in> set X. Suc (length x) = length w"
    and "length y = length X"
  shows "case spec_epoch F (lr self) (zip X y) False w of
           Inl e \<Rightarrow> fst (update_weights F self (augment X) y) = Inl e
         | Inr (seen, w') \<Rightarrow>
             update_weights F self (augment X) y = (Inr seen, self\<lparr>weights := Some w'\<rparr>)"
proof -
  have len: "length (augment X) = length X" by (simp add: augment_def)
  from update_weights_loop_spec [OF assms, of F 0 False]
  show ?thesis by (simp add: update_weights_def len split: sum.splits prod.splits)
qed

lemma spec_epoch_length:
  assumes "spec_epoch F eta samples seen w = Inr (seen', w')"
    and "\<forall>(x, t) \<in> set samples. Suc (length x) = length w"
  shows "length w' = length w"
  using assms
proof (induction samples arbitrary: seen w)
  case Nil
  then show ?case by simp
next
  case (Cons p samples)
  obtain x t where p: "p = (x, t)" by (cases p)
  from Cons.prems(1) obtain s1 w1 where
    s: "spec_sample F eta x t seen w = Inr (s1, w1)"
    and r: "spec_epoch F eta samples s1 w1 = Inr (seen', w')"
    by (auto simp: p split: sum.splits)
  have lx: "Suc (length x) = length w" using Cons.prems(2) by (simp add: p)
  have l1: "length w1 = length w"
    using s lx
    by (auto simp: spec_sample_def split: sum.splits if_splits dest!: spec_adjust_length)
  have "\<forall>(x, t) \<in> set samples. Suc (length x) = length w1"
    using Cons.prems(2) l1 by simp
  from Cons.IH [OF r this] l1 show ?case by simp
qed

lemma fit_loop_spec:
  assumes "weights self = Some w" and "\<forall>x \<in> set X. Suc (length x) = length w"
    and "length y = length X"
  shows "case spec_train F (lr self) k (zip X y) w (priv_iterations self) of
           Inl e \<Rightarrow> fst (fit_loop F k self (augment X) y) = Inl e
         | Inr (n, w') \<Rightarrow>
             fit_loop F k self (augment X) y
               = (Inr (), self\<lparr>weights := Some w', priv_iterations := n\<rparr>)"
  using assms(1,2)
proof (induction k arbitrary: self w)
  case 0
  then show ?case by (cases self) simp
next
  case (Suc k)
  let ?s = "self\<lparr>priv_iterations := priv_iterations self + 1\<rparr>"
  have ws: "weights ?s = Some w" using Suc.prems(1) by simp
  from update_weights_spec [OF ws Suc.prems(2) assms(3), of F]
  have ep: "case spec_epoch F (lr self) (zip X y) False w of
           Inl e \<Rightarrow> fst (update_weights F ?s (augment X) y) = Inl e
         | Inr (seen, w') \<Rightarrow>
             update_weights F ?s (augment X) y = (Inr seen, ?s\<lparr>weights := Some w'\<rparr>)"
    by simp
  show ?case
  proof (cases "spec_epoch F (lr self) (zip X y) False w")
    case (Inl e)
    then have "fst (update_weights F ?s (augment X) y) = Inl e" using ep by simp
    then show ?thesis
      using Inl by (cases "update_weights F ?s (augment X) y") simp
  next
    case (Inr r)
    obtain seen w' where r: "r = (seen, w')" by (cases r)
    have up: "update_weights F ?s (augment X) y = (Inr seen, ?s\<lparr>weights := Some w'\<rparr>)"
      using ep Inr r by simp
    show ?thesis
    proof (cases seen)
      case False
      then show ?thesis using Inr r up by simp
    next
      case True
      let ?t = "?s\<lparr>weights := Some w'\<rparr>"
      have uniz: "\<forall>(x, t) \<in> set (zip X y). Suc (length x) = length w"
        using Suc.prems(2) by (auto dest: set_zip_leftD)
      have lw: "length w' = length w"
        using spec_epoch_length [OF Inr [unfolded r] uniz] .
      have wt: "weights ?t = Some w'" by simp
      have uni: "\<forall>x \<in> set X. Suc (length x) = length w'"
        using Suc.prems(2) lw by simp
      from Suc.IH [OF wt uni]
      show ?thesis using Inr r up True by (simp split: sum.splits prod.splits)
    qed
  qed
qed

text \<open>
  Claim C1. \<^verbatim>\<open>fit\<close> on samples of one length with one label each is the training
  of the specification, \<open>spec_train\<close>, started from the weights drawn on line 63 and
  the counter 0: epoch after epoch, every sample in the original order, the predicted
  label \<open>+1\<close> or \<open>-1\<close> from the weighted sum of the sample with the constant 1 in
  front, \<open>error = true_label - predicted_label\<close>, and, exactly when the error is not
  0, every weight \<open>j\<close> (the bias at index 0 included) replaced by
  \<open>weight[j] + learning_rate * error * augmented_sample[j]\<close>; a sample with error 0
  leaves the weights as they are. All operations are those of Python in the arithmetic
  \<open>F\<close>: when one of them raises \<^verbatim>\<open>OverflowError\<close>, \<^verbatim>\<open>fit\<close> raises it; otherwise
  \<^verbatim>\<open>fit\<close> returns and leaves the trained weights and the number of epochs in the
  instance.
\<close>

theorem fit_follows_update_rule:
  assumes "X \<noteq> []" and "\<forall>x \<in> set X. length x = length (hd X)" and "length y = length X"
  shows "case spec_train F (lr self) (nat (n_iters self)) (zip X y)
                (map (\<lambda>i. PyFloat (rnd i)) [0..<length (hd X) + 1]) 0 of
           Inl e \<Rightarrow> fst (fit F self X y rnd) = Inl e
         | Inr (n, w) \<Rightarrow>
             fit F self X y rnd = (Inr (), self\<lparr>weights := Some w, priv_iterations := n\<rparr>)"
proof -
  let ?w = "map (\<lambda>i. PyFloat (rnd i)) [0..<length (hd X) + 1]"
  let ?s = "self\<lparr>weights := Some ?w, priv_iterations := 0\<rparr>"
  have f: "fit F self X y rnd = fit_loop F (nat (n_iters self)) ?s (augment X) y"
    using assms(1) by (cases X) (simp_all add: fit_def augment_def)
  have ws: "weights ?s = Some ?w" by simp
  have uni: "\<forall>x \<in> set X. Suc (length x) = length ?w" using assms(2) by simp
  from fit_loop_spec [OF ws uni assms(3), of F "nat (n_iters self)"]
  show ?thesis unfolding f by (simp split: sum.splits prod.splits)
qed

theorem fit_follows_update_rule_witness:
  "[[PyInt 2, PyInt 2], [PyInt (- 2), PyInt (- 2 :: int) :: real pynum]] \<noteq> []
   \<and> length [PyInt 2, PyInt 2 :: real pynum]
       = length (hd [[PyInt 2, PyInt 2], [PyInt (- 2), PyInt (- 2) :: real pynum]])
   \<and> length [PyInt (- 2), PyInt (- 2) :: real pynum]
       = length (hd [[PyInt 2, PyInt 2], [PyInt (- 2), PyInt (- 2) :: real pynum]])
   \<and> length [PyInt (- 1), PyInt 1 :: real pynum]
       = length [[PyInt 2, PyInt 2], [PyInt (- 2), PyInt (- 2) :: real pynum]]
   \<and> spec_train exact (PyFloat (1 / 2)) 1000
         (zip [[PyInt 2, PyInt 2], [PyInt (- 2), PyInt (- 2)]] [PyInt (- 1), PyInt 1])
         [PyFloat (1 / 2), PyFloat (1 / 2), PyFloat (1 / 2)] 0
       = Inr (2, [PyFloat (- 1 / 2), PyFloat (- 3 / 2), PyFloat (- 3 / 2)])
   \<and> fit exact (init (PyFloat (1 / 2)) 1000)
         [[PyInt 2, PyInt 2], [PyInt (- 2), PyInt (- 2)]] [PyInt (- 1), PyInt 1] (\<lambda>i. 1 / 2)
       = (Inr (), \<lparr>lr = PyFloat (1 / 2), n_iters = 1000, priv_iterations = 2,
            weights = Some [PyFloat (- 1 / 2), PyFloat (- 3 / 2), PyFloat (- 3 / 2)]\<rparr>)"
proof -
  let ?X = "[[PyInt 2, PyInt 2], [PyInt (- 2), PyInt (- 2) :: real pynum]]"
  let ?y = "[PyInt (- 1), PyInt 1 :: real pynum]"
  let ?p = "init (PyFloat (1 / 2 :: real)) 1000"
  have ne: "?X \<noteq> []" by simp
  have uni: "\<forall>x \<in> set ?X. length x = length (hd ?X)" by simp
  have len: "length ?y = length ?X" by simp
  have w0: "map (\<lambda>i. PyFloat (1 / 2 :: real)) [0..<length (hd ?X) + 1]
      = [PyFloat (1 / 2), PyFloat (1 / 2), PyFloat (1 / 2)]"
    by (simp add: upt_conv_Cons)
  have p: "lr ?p = PyFloat (1 / 2)" "nat (n_iters ?p) = 1000"
    by (simp_all add: init_def)
  have tr: "spec_train exact (PyFloat (1 / 2)) 1000 (zip ?X ?y)
         [PyFloat (1 / 2), PyFloat (1 / 2), PyFloat (1 / 2)] 0
       = Inr (2, [PyFloat (- 1 / 2), PyFloat (- 3 / 2), PyFloat (- 3 / 2)])"
    by code_simp
  from fit_follows_update_rule [OF ne uni len, of exact ?p "\<lambda>i. 1 / 2"]
  have "fit exact ?p ?X ?y (\<lambda>i. 1 / 2)
      = (Inr (), ?p\<lparr>weights := Some [PyFloat (- 1 / 2), PyFloat (- 3 / 2), PyFloat (- 3 / 2)],
           priv_iterations := 2\<rparr>)"
    unfolding w0 p tr by simp
  then have "fit exact ?p ?X ?y (\<lambda>i. 1 / 2)
      = (Inr (), \<lparr>lr = PyFloat (1 / 2), n_iters = 1000, priv_iterations = 2,
            weights = Some [PyFloat (- 1 / 2), PyFloat (- 3 / 2), PyFloat (- 3 / 2)]\<rparr>)"
    by (simp add: init_def)
  with tr show ?thesis by simp
qed

section \<open>What \<^verbatim>\<open>fit\<close> writes to\<close>

lemma predict_h_state: "snd (predict_h F self h x) = (self, h)"
  by (simp add: predict_h_def split: sum.splits)

lemma update_weights_inner_h_frame:
  "update_weights_inner_h F x d js self h = (r, self', h') \<Longrightarrow>
   self' = self \<and> ref_lists h' = ref_lists h \<and> lim h' = lim h
   \<and> (\<forall>a. weights self \<noteq> Some a \<longrightarrow> num_lists h' a = num_lists h a)"
proof (induction js arbitrary: h)
  case Nil
  then show ?case by simp
next
  case (Cons j js)
  show ?case
  proof (cases "weights self")
    case None
    then show ?thesis using Cons.prems by simp
  next
    case (Some wa)
    show ?thesis
    proof (cases "j < length (num_lists h wa)")
      case False
      then show ?thesis using Cons.prems Some by simp
    next
      case True
      show ?thesis
      proof (cases "py_mul F (lr self) d")
        case (Inl e)
        then show ?thesis using Cons.prems Some True by simp
      next
        case u: (Inr u)
        show ?thesis
        proof (cases "py_mul F u (num_lists h x ! j)")
          case (Inl e)
          then show ?thesis using Cons.prems Some True u by simp
        next
          case v: (Inr v)
          show ?thesis
          proof (cases "py_add F (num_lists h wa ! j) v")
            case (Inl e)
            then show ?thesis using Cons.prems Some True u v by simp
          next
            case c: (Inr c)
            let ?h = "h\<lparr>num_lists := (num_lists h)(wa := (num_lists h wa)[j := c])\<rparr>"
            have "update_weights_inner_h F x d js self ?h = (r, self', h')"
              using Cons.prems Some True u v c by simp
            from Cons.IH [OF this] show ?thesis
              using Some by simp
          qed
        qed
      qed
    qed
  qed
qed

lemma update_weights_loop_h_frame:
  "update_weights_loop_h F X y is ok self h = (r, self', h') \<Longrightarrow>
   self' = self \<and> ref_lists h' = ref_lists h \<and> lim h' = lim h
   \<and> (\<forall>a. weights self \<noteq> Some a \<longrightarrow> num_lists h' a = num_lists h a)"
proof (induction "is" arbitrary: ok h)
  case Nil
  then show ?case by simp
next
  case (Cons i "is")
  obtain p where p: "predict_h F self h (ref_lists h X ! i) = (p, self, h)"
    using predict_h_state [of F self h "ref_lists h X ! i"]
    by (cases "predict_h F self h (ref_lists h X ! i)") simp
  show ?case
  proof (cases p)
    case (Inl e)
    then show ?thesis using Cons.prems p by simp
  next
    case (Inr y_hat)
    show ?thesis
    proof (cases "i < length (num_lists h y)")
      case False
      then show ?thesis using Cons.prems p Inr by simp
    next
      case True
      show ?thesis
      proof (cases "py_sub F (num_lists h y ! i) y_hat")
        case (Inl e)
        then show ?thesis using Cons.prems p Inr True by simp
      next
        case er: (Inr err)
        show ?thesis
        proof (cases "ne_zero F err")
          case z: False
          then have "update_weights_loop_h F X y is ok self h = (r, self', h')"
            using Cons.prems p Inr True er by simp
          then show ?thesis by (rule Cons.IH)
        next
          case nz: True
          obtain r2 s2 h2 where u: "update_weights_inner_h F (ref_lists h X ! i) err
              [0..<length (num_lists h (ref_lists h X ! i))] self h = (r2, s2, h2)"
            by (metis prod_cases3)
          note f2 = update_weights_inner_h_frame [OF u]
          show ?thesis
          proof (cases r2)
            case (Inl e)
            then show ?thesis using Cons.prems p Inr True er nz u f2 by simp
          next
            case r2: (Inr v)
            then have "update_weights_loop_h F X y is False self h2 = (r, self', h')"
              using Cons.prems p Inr True er nz u f2 by simp
            from Cons.IH [OF this] f2 show ?thesis by simp
          qed
        qed
      qed
    qed
  qed
qed

lemma fit_loop_h_frame:
  "fit_loop_h F k self h X y = (r, self', h') \<Longrightarrow>
   weights self' = weights self \<and> ref_lists h' = ref_lists h \<and> lim h' = lim h
   \<and> (\<forall>a. weights self \<noteq> Some a \<longrightarrow> num_lists h' a = num_lists h a)"
proof (induction k arbitrary: self h)
  case 0
  then show ?case by simp
next
  case (Suc k)
  let ?s = "self\<lparr>priv_iterations := priv_iterations self + 1\<rparr>"
  obtain r1 s1 h1 where u: "update_weights_h F ?s h X y = (r1, s1, h1)"
    by (metis prod_cases3)
  from update_weights_loop_h_frame [OF u [unfolded update_weights_h_def]]
  have f1: "s1 = ?s" "ref_lists h1 = ref_lists h" "lim h1 = lim h"
    "\<forall>a. weights self \<noteq> Some a \<longrightarrow> num_lists h1 a = num_lists h a"
    by simp_all
  show ?case
  proof (cases r1)
    case (Inl e)
    then have "self' = s1 \<and> h' = h1" using Suc.prems u by simp
    then show ?thesis using f1 by simp
  next
    case (Inr changed)
    show ?thesis
    proof (cases changed)
      case False
      then have "self' = s1 \<and> h' = h1" using Suc.prems u Inr by simp
      then show ?thesis using f1 by simp
    next
      case True
      then have "fit_loop_h F k s1 h1 X y = (r, self', h')"
        using Suc.prems u Inr by simp
      from Suc.IH [OF this] f1 show ?thesis by simp
    qed
  qed
qed

lemma augment_h_frame:
  "augment_h as h = (bs, h') \<Longrightarrow>
   ref_lists h' = ref_lists h \<and> lim h \<le> lim h'
   \<and> (\<forall>a<lim h. num_lists h' a = num_lists h a)"
proof (induction as arbitrary: h bs h')
  case Nil
  then show ?case by simp
next
  case (Cons a as)
  obtain b h1 where n: "new_num_list (PyInt 1 # num_lists h a) h = (b, h1)"
    by (cases "new_num_list (PyInt 1 # num_lists h a) h")
  obtain cs h2 where r: "augment_h as h1 = (cs, h2)"
    by (cases "augment_h as h1")
  have h2: "h' = h2" using Cons.prems n r by simp
  have f1: "ref_lists h1 = ref_lists h" "lim h1 = lim h + 1"
    "\<forall>a<lim h. num_lists h1 a = num_lists h a"
    using n by (auto simp: new_num_list_def)
  from Cons.IH [OF r] f1 show ?case
    unfolding h2 by simp
qed

text \<open>
  Claim C10. Whatever \<^verbatim>\<open>fit\<close> does (return or raise), every list object that
  existed when it was called holds afterwards what it held before. In particular the
  caller's samples, with every inner feature vector, and the caller's labels are
  element for element what was passed in: the weights live in a list created by this
  call, and the augmented samples are new lists.
\<close>

theorem fit_h_leaves_callers_lists:
  assumes "fit_h F self h X y rnd = (r, self', h')"
  shows "(\<forall>a<lim h. num_lists h' a = num_lists h a \<and> ref_lists h' a = ref_lists h a)
    \<and> (X < lim h \<and> (\<forall>a \<in> set (ref_lists h X). a < lim h) \<and> y < lim h \<longrightarrow>
         samples_at h' X = samples_at h X \<and> num_lists h' y = num_lists h y)"
proof -
  have frame: "\<forall>a<lim h. num_lists h' a = num_lists h a \<and> ref_lists h' a = ref_lists h a"
  proof (cases "ref_lists h X")
    case Nil
    then show ?thesis using assms by (simp add: fit_h_def)
  next
    case (Cons a0 rest)
    define w0 where "w0 = map (\<lambda>i. PyFloat (rnd i)) [0..<length (num_lists h a0) + 1]"
    obtain wa h1 where w: "new_num_list w0 h = (wa, h1)"
      by (cases "new_num_list w0 h")
    obtain bs h2 where a: "augment_h (ref_lists h1 X) h1 = (bs, h2)"
      by (cases "augment_h (ref_lists h1 X) h1")
    obtain X1 h3 where x: "new_ref_list bs h2 = (X1, h3)"
      by (cases "new_ref_list bs h2")
    let ?s = "self\<lparr>weights := Some wa, priv_iterations := 0\<rparr>"
    have loop: "fit_loop_h F (nat (n_iters self)) ?s h3 X1 y = (r, self', h')"
      using assms Cons w a x by (simp add: fit_h_def w0_def)
    have f1: "wa = lim h" "ref_lists h1 = ref_lists h" "lim h1 = lim h + 1"
      "\<forall>a<lim h. num_lists h1 a = num_lists h a"
      using w by (auto simp: new_num_list_def)
    note f2 = augment_h_frame [OF a]
    have f3: "num_lists h3 = num_lists h2" "\<forall>a<lim h2. ref_lists h3 a = ref_lists h2 a"
      using x by (auto simp: new_ref_list_def)
    note f4 = fit_loop_h_frame [OF loop]
    show ?thesis
    proof (intro allI impI conjI)
      fix a assume a: "a < lim h"
      then have "weights ?s \<noteq> Some a" using f1(1) by simp
      then have "num_lists h' a = num_lists h3 a" using f4 by blast
      also have "\<dots> = num_lists h1 a" using f3(1) f2 f1(3) a by simp
      also have "\<dots> = num_lists h a" using f1(4) a by simp
      finally show "num_lists h' a = num_lists h a" .
      have "ref_lists h' a = ref_lists h3 a" using f4 by simp
      also have "\<dots> = ref_lists h2 a" using f3(2) f2 f1(3) a by simp
      also have "\<dots> = ref_lists h a" using f2 f1(2) by simp
      finally show "ref_lists h' a = ref_lists h a" .
    qed
  qed
  have "samples_at h' X = samples_at h X \<and> num_lists h' y = num_lists h y"
    if "X < lim h" and "\<forall>a \<in> set (ref_lists h X). a < lim h" and "y < lim h"
    using that frame by (simp add: samples_at_def)
  with frame show ?thesis by blast
qed

theorem fit_h_leaves_callers_lists_witness:
  "(2 :: nat) < lim \<lparr>num_lists = (\<lambda>a. [])(0 := [PyInt 2, PyInt 2], 1 := [PyInt (- 2), PyInt (- 2)],
          3 := [PyInt (- 1), PyInt 1 :: real pynum]),
        ref_lists = (\<lambda>a. [])(2 := [0, 1]), lim = 4\<rparr>
   \<and> ref_lists \<lparr>num_lists = (\<lambda>a. [])(0 := [PyInt 2, PyInt 2], 1 := [PyInt (- 2), PyInt (- 2)],
          3 := [PyInt (- 1), PyInt 1 :: real pynum]),
        ref_lists = (\<lambda>a. [])(2 := [0, 1]), lim = 4\<rparr> 2 = [0, 1]
   \<and> (3 :: nat) < lim \<lparr>num_lists = (\<lambda>a. [])(0 := [PyInt 2, PyInt 2], 1 := [PyInt (- 2), PyInt (- 2)],
          3 := [PyInt (- 1), PyInt 1 :: real pynum]),
        ref_lists = (\<lambda>a. [])(2 := [0, 1]), lim = 4\<rparr>
   \<and> fst (fit_h exact \<lparr>lr = PyFloat (1 / 2), n_iters = 1000, priv_iterations = 0, weights = None\<rparr>
      \<lparr>num_lists = (\<lambda>a. [])(0 := [PyInt 2, PyInt 2], 1 := [PyInt (- 2), PyInt (- 2)],
          3 := [PyInt (- 1), PyInt 1 :: real pynum]),
        ref_lists = (\<lambda>a. [])(2 := [0, 1]), lim = 4\<rparr> 2 3 (\<lambda>i. 1 / 2)) = Inr ()
   \<and> num_lists (snd (snd (fit_h exact \<lparr>lr = PyFloat (1 / 2), n_iters = 1000, priv_iterations = 0, weights = None\<rparr>
      \<lparr>num_lists = (\<lambda>a. [])(0 := [PyInt 2, PyInt 2], 1 := [PyInt (- 2), PyInt (- 2)],
          3 := [PyInt (- 1), PyInt 1 :: real pynum]),
        ref_lists = (\<lambda>a. [])(2 := [0, 1]), lim = 4\<rparr> 2 3 (\<lambda>i. 1 / 2)))) 4
       = [PyFloat (- 1 / 2), PyFloat (- 3 / 2), PyFloat (- 3 / 2)]
   \<and> samples_at (snd (snd (fit_h exact \<lparr>lr = PyFloat (1 / 2), n_iters = 1000, priv_iterations = 0, weights = None\<rparr>
      \<lparr>num_lists = (\<lambda>a. [])(0 := [PyInt 2, PyInt 2], 1 := [PyInt (- 2), PyInt (- 2)],
          3 := [PyInt (- 1), PyInt 1 :: real pynum]),
        ref_lists = (\<lambda>a. [])(2 := [0, 1]), lim = 4\<rparr> 2 3 (\<lambda>i. 1 / 2)))) 2
       = [[PyInt 2, PyInt 2], [PyInt (- 2), PyInt (- 2)]]
   \<and> num_lists (snd (snd (fit_h exact \<lparr>lr = PyFloat (1 / 2), n_iters = 1000, priv_iterations = 0, weights = None\<rparr>
      \<lparr>num_lists = (\<lambda>a. [])(0 := [PyInt 2, PyInt 2], 1 := [PyInt (- 2), PyInt (- 2)],
          3 := [PyInt (- 1), PyInt 1 :: real pynum]),
        ref_lists = (\<lambda>a. [])(2 := [0, 1]), lim = 4\<rparr> 2 3 (\<lambda>i. 1 / 2)))) 3
       = [PyInt (- 1), PyInt 1]"
proof -
  let ?h = "\<lparr>num_lists = (\<lambda>a. [])(0 := [PyInt 2, PyInt 2], 1 := [PyInt (- 2), PyInt (- 2)],
          3 := [PyInt (- 1), PyInt 1 :: real pynum]),
        ref_lists = (\<lambda>a. [])(2 := [0, 1]), lim = 4\<rparr>"
  let ?run = "fit_h exact \<lparr>lr = PyFloat (1 / 2), n_iters = 1000, priv_iterations = 0,
      weights = None\<rparr> ?h 2 3 (\<lambda>i. 1 / 2)"
  have run: "?run = (fst ?run, fst (snd ?run), snd (snd ?run))"
    by simp
  have wf: "2 < lim ?h \<and> (\<forall>a \<in> set (ref_lists ?h 2). a < lim ?h) \<and> 3 < lim ?h"
    by simp
  have before: "samples_at ?h 2 = [[PyInt 2, PyInt 2], [PyInt (- 2), PyInt (- 2)]]"
    "num_lists ?h 3 = [PyInt (- 1), PyInt 1]"
    by (simp_all add: samples_at_def)
  from fit_h_leaves_callers_lists [OF run, THEN conjunct2, THEN mp, OF wf]
  have after: "samples_at (snd (snd ?run)) 2 = [[PyInt 2, PyInt 2], [PyInt (- 2), PyInt (- 2)]]"
    "num_lists (snd (snd ?run)) 3 = [PyInt (- 1), PyInt 1]"
    unfolding before by blast+
  have r: "fst ?run = Inr ()"
    by code_simp
  have w: "num_lists (snd (snd ?run)) 4 = [PyFloat (- 1 / 2), PyFloat (- 3 / 2), PyFloat (- 3 / 2)]"
    by code_simp
  have shape: "(2 :: nat) < lim ?h" "ref_lists ?h 2 = [0, 1]" "(3 :: nat) < lim ?h"
    by simp_all
  from shape r w after show ?thesis by blast
qed

section \<open>The store embedding agrees with the embedding by value\<close>

lemma weighted_sum_h_value:
  "weighted_sum_h F self h x is acc = weighted_sum F (value_of h self) (num_lists h x) is acc"
  by (induction "is" arbitrary: acc)
     (simp_all add: value_of_def split: option.splits sum.splits)

lemma predict_h_value:
  "fst (predict_h F self h x) = fst (predict F (value_of h self) (num_lists h x))"
  by (simp add: predict_h_def predict_def weighted_sum_h_value split: sum.splits)

lemma update_weights_inner_h_value:
  assumes "weights self \<noteq> Some x"
  shows "(case update_weights_inner_h F x d js self h of (r, self', h') \<Rightarrow> (r, value_of h' self'))
    = update_weights_inner F (num_lists h x) d js (value_of h self)"
proof (induction js arbitrary: h)
  case Nil
  show ?case by simp
next
  case (Cons j js)
  show ?case
  proof (cases "weights self")
    case None
    then show ?thesis by (simp add: value_of_def)
  next
    case (Some wa)
    then have ne: "wa \<noteq> x" using assms by auto
    have lrv: "lr (value_of h self) = lr self" and wv: "weights (value_of h self) = Some (num_lists h wa)"
      using Some by (simp_all add: value_of_def)
    show ?thesis
    proof (cases "j < length (num_lists h wa)")
      case False
      then show ?thesis using Some by (simp add: value_of_def)
    next
      case True
      show ?thesis
      proof (cases "py_mul F (lr self) d")
        case (Inl e)
        then show ?thesis using Some True lrv wv by simp
      next
        case u: (Inr u)
        show ?thesis
        proof (cases "py_mul F u (num_lists h x ! j)")
          case (Inl e)
          then show ?thesis using Some True u lrv wv by simp
        next
          case v: (Inr v)
          show ?thesis
          proof (cases "py_add F (num_lists h wa ! j) v")
            case (Inl e)
            then show ?thesis using Some True u v lrv wv by simp
          next
            case c: (Inr c)
            let ?w = "(num_lists h wa)[j := c]"
            let ?h = "h\<lparr>num_lists := (num_lists h)(wa := ?w)\<rparr>"
            have vh: "value_of ?h self = (value_of h self)\<lparr>weights := Some ?w\<rparr>"
              using Some by (simp add: value_of_def)
            have x: "num_lists ?h x = num_lists h x" using ne by simp
            have "(case update_weights_inner_h F x d (j # js) self h of
                  (r, self', h') \<Rightarrow> (r, value_of h' self'))
                = (case update_weights_inner_h F x d js self ?h of
                  (r, self', h') \<Rightarrow> (r, value_of h' self'))"
              using Some True u v c by simp
            also have "\<dots> = update_weights_inner F (num_lists ?h x) d js (value_of ?h self)"
              by (rule Cons.IH)
            also have "\<dots> = update_weights_inner F (num_lists h x) d (j # js) (value_of h self)"
              unfolding x vh using True u v c lrv wv by simp
            finally show ?thesis .
          qed
        qed
      qed
    qed
  qed
qed

lemma samples_at_frame:
  assumes "ref_lists h' = ref_lists h"
    and "\<forall>a \<in> set (ref_lists h X). num_lists h' a = num_lists h a"
  shows "samples_at h' X = samples_at h X"
  using assms by (simp add: samples_at_def)

lemma update_weights_loop_h_value:
  assumes "\<forall>a \<in> set (ref_lists h X). weights self \<noteq> Some a"
    and "weights self \<noteq> Some y"
    and "\<forall>i \<in> set is. i < length (ref_lists h X)"
  shows "(case update_weights_loop_h F X y is ok self h of (r, self', h') \<Rightarrow> (r, value_of h' self'))
    = update_weights_loop F (samples_at h X) (num_lists h y) is ok (value_of h self)"
  using assms
proof (induction "is" arbitrary: ok h)
  case Nil
  show ?case by simp
next
  case (Cons i "is")
  define xi where "xi = ref_lists h X ! i"
  have i: "i < length (ref_lists h X)" and rest: "\<forall>i \<in> set is. i < length (ref_lists h X)"
    using Cons.prems(3) by simp_all
  have xi: "samples_at h X ! i = num_lists h xi"
    using i by (simp add: samples_at_def xi_def)
  have xi_ne: "weights self \<noteq> Some xi"
    using Cons.prems(1) i by (simp add: xi_def)
  define p where "p = fst (predict F (value_of h self) (num_lists h xi))"
  have ph: "predict_h F self h xi = (p, self, h)"
    using predict_h_state [of F self h xi] predict_h_value [of F self h xi]
    by (cases "predict_h F self h xi") (simp add: p_def)
  have pv: "predict F (value_of h self) (num_lists h xi) = (p, value_of h self)"
    using predict_state [of F "value_of h self" "num_lists h xi"]
    by (cases "predict F (value_of h self) (num_lists h xi)") (simp add: p_def)
  note rhs = update_weights_loop_Cons [of F "samples_at h X" "num_lists h y" i "is" ok "value_of h self",
      unfolded xi pv]
  note lhs = update_weights_loop_h.simps(2) [of F X y i "is" ok self h,
      unfolded xi_def [symmetric] ph]
  show ?case
  proof (cases p)
    case (Inl e)
    then show ?thesis unfolding lhs rhs by simp
  next
    case (Inr y_hat)
    show ?thesis
    proof (cases "i < length (num_lists h y)")
      case False
      then show ?thesis unfolding lhs rhs using Inr by simp
    next
      case True
      show ?thesis
      proof (cases "py_sub F (num_lists h y ! i) y_hat")
        case (Inl e)
        then show ?thesis unfolding lhs rhs using Inr True by simp
      next
        case er: (Inr d)
        show ?thesis
        proof (cases "ne_zero F d")
          case z: False
          have "(case update_weights_loop_h F X y is ok self h of
                (r, self', h') \<Rightarrow> (r, value_of h' self'))
              = update_weights_loop F (samples_at h X) (num_lists h y) is ok (value_of h self)"
            using Cons.prems(1,2) rest by (rule Cons.IH)
          then show ?thesis
            unfolding lhs rhs using Inr True er z by simp
        next
          case nz: True
          obtain r2 s2 h2 where
            u: "update_weights_inner_h F xi d [0..<length (num_lists h xi)] self h = (r2, s2, h2)"
            by (metis prod_cases3)
          note f2 = update_weights_inner_h_frame [OF u]
          have s2: "s2 = self" and refs2: "ref_lists h2 = ref_lists h" using f2 by simp_all
          have v: "update_weights_inner F (num_lists h xi) d [0..<length (num_lists h xi)]
              (value_of h self) = (r2, value_of h2 self)"
            using update_weights_inner_h_value [OF xi_ne, of F d "[0..<length (num_lists h xi)]" h] u s2
            by simp
          have same: "samples_at h2 X = samples_at h X" "num_lists h2 y = num_lists h y"
            using f2 Cons.prems(1,2) by (simp_all add: samples_at_def)
          show ?thesis
          proof (cases r2)
            case (Inl e)
            then show ?thesis
              unfolding lhs rhs using Inr True er nz u v s2 by (simp add: xi_def [symmetric])
          next
            case r2: (Inr w)
            have "(case update_weights_loop_h F X y is False self h2 of
                  (r, self', h') \<Rightarrow> (r, value_of h' self'))
                = update_weights_loop F (samples_at h2 X) (num_lists h2 y) is False (value_of h2 self)"
              using Cons.prems(1,2) rest unfolding refs2 [symmetric] by (rule Cons.IH)
            then show ?thesis
              unfolding lhs rhs same using Inr True er nz u v s2 r2
              by (simp add: xi_def [symmetric])
          qed
        qed
      qed
    qed
  qed
qed

lemma fit_loop_h_value:
  assumes "\<forall>a \<in> set (ref_lists h X). weights self \<noteq> Some a"
    and "weights self \<noteq> Some y"
  shows "(case fit_loop_h F k self h X y of (r, self', h') \<Rightarrow> (r, value_of h' self'))
    = fit_loop F k (value_of h self) (samples_at h X) (num_lists h y)"
  using assms
proof (induction k arbitrary: self h)
  case 0
  show ?case by simp
next
  case (Suc k)
  let ?s = "self\<lparr>priv_iterations := priv_iterations self + 1\<rparr>"
  obtain r1 s1 h1 where u: "update_weights_h F ?s h X y = (r1, s1, h1)"
    by (metis prod_cases3)
  note f1 = update_weights_loop_h_frame [OF u [unfolded update_weights_h_def]]
  have s1: "s1 = ?s" and refs1: "ref_lists h1 = ref_lists h" using f1 by simp_all
  have same: "samples_at h1 X = samples_at h X" "num_lists h1 y = num_lists h y"
    using f1 Suc.prems by (simp_all add: samples_at_def)
  have vs: "value_of h ?s = (value_of h self)\<lparr>priv_iterations := priv_iterations (value_of h self) + 1\<rparr>"
    by (simp add: value_of_def)
  have "(case update_weights_loop_h F X y [0..<length (ref_lists h X)] True ?s h of
        (r, self', h') \<Rightarrow> (r, value_of h' self'))
      = update_weights_loop F (samples_at h X) (num_lists h y) [0..<length (ref_lists h X)] True
          (value_of h ?s)"
    using Suc.prems by (intro update_weights_loop_h_value) simp_all
  then have v: "update_weights F (value_of h ?s) (samples_at h X) (num_lists h y)
      = (r1, value_of h1 s1)"
    using u by (simp add: update_weights_def update_weights_h_def samples_at_def)
  show ?case
  proof (cases "r1 = Inr True")
    case False
    then show ?thesis
      using u v unfolding vs by (cases r1) auto
  next
    case True
    have "(case fit_loop_h F k s1 h1 X y of (r, self', h') \<Rightarrow> (r, value_of h' self'))
        = fit_loop F k (value_of h1 s1) (samples_at h1 X) (num_lists h1 y)"
      using Suc.prems unfolding refs1 [symmetric] s1 by (intro Suc.IH) simp_all
    then show ?thesis
      using u v True unfolding vs same by simp
  qed
qed

lemma augment_h_contents:
  "augment_h as h = (bs, h') \<Longrightarrow> \<forall>a \<in> set as. a < lim h \<Longrightarrow>
   map (num_lists h') bs = map (\<lambda>a. PyInt 1 # num_lists h a) as
   \<and> (\<forall>b \<in> set bs. lim h \<le> b \<and> b < lim h')"
proof (induction as arbitrary: h bs h')
  case Nil
  then show ?case by simp
next
  case (Cons a as)
  obtain b h1 where n: "new_num_list (PyInt 1 # num_lists h a) h = (b, h1)"
    by (cases "new_num_list (PyInt 1 # num_lists h a) h")
  obtain cs h2 where r: "augment_h as h1 = (cs, h2)"
    by (cases "augment_h as h1")
  have res: "bs = b # cs" "h' = h2" using Cons.prems(1) n r by simp_all
  have f1: "b = lim h" "lim h1 = lim h + 1" "num_lists h1 b = PyInt 1 # num_lists h a"
    "\<forall>c<lim h. num_lists h1 c = num_lists h c"
    using n by (auto simp: new_num_list_def)
  have small: "\<forall>a \<in> set as. a < lim h1" using Cons.prems(2) f1(2) by auto
  note ih = Cons.IH [OF r small]
  note f2 = augment_h_frame [OF r]
  have "num_lists h2 b = PyInt 1 # num_lists h a"
    using f2 f1 by simp
  moreover have "map (num_lists h2) cs = map (\<lambda>a. PyInt 1 # num_lists h a) as"
    using ih f1(4) Cons.prems(2) by simp
  moreover have "\<forall>c \<in> set cs. lim h \<le> c \<and> c < lim h2"
    using ih f1(2) by auto
  moreover have "lim h \<le> b \<and> b < lim h2"
    using f1 f2 by simp
  ultimately show ?case unfolding res by simp
qed

text \<open>
  When the caller's references point to existing objects, \<^verbatim>\<open>fit\<close> over the store
  does what \<^verbatim>\<open>fit\<close> by value does on the lists the references stand for: same
  outcome, same counter, same weights.
\<close>

lemma fit_h_refines_fit:
  assumes "\<forall>a \<in> set (ref_lists h X). a < lim h" and "y < lim h"
  shows "(case fit_h F self h X y rnd of (r, self', h') \<Rightarrow> (r, value_of h' self'))
    = fit F (value_of h self) (samples_at h X) (num_lists h y) rnd"
proof (cases "ref_lists h X")
  case Nil
  then show ?thesis by (simp add: fit_h_def fit_def samples_at_def)
next
  case (Cons a0 rest)
  define w0 where "w0 = map (\<lambda>i. PyFloat (rnd i)) [0..<length (num_lists h a0) + 1]"
  obtain wa h1 where w: "new_num_list w0 h = (wa, h1)"
    by (cases "new_num_list w0 h")
  obtain bs h2 where a: "augment_h (ref_lists h1 X) h1 = (bs, h2)"
    by (cases "augment_h (ref_lists h1 X) h1")
  obtain X1 h3 where x: "new_ref_list bs h2 = (X1, h3)"
    by (cases "new_ref_list bs h2")
  define s1 where "s1 = self\<lparr>weights := Some wa, priv_iterations := 0\<rparr>"
  have run: "fit_h F self h X y rnd = fit_loop_h F (nat (n_iters self)) s1 h3 X1 y"
    using Cons w a x by (simp add: fit_h_def w0_def s1_def)
  have f1: "wa = lim h" "ref_lists h1 = ref_lists h" "lim h1 = lim h + 1"
    "num_lists h1 wa = w0" "\<forall>c<lim h. num_lists h1 c = num_lists h c"
    using w by (auto simp: new_num_list_def)
  have small: "\<forall>a \<in> set (ref_lists h1 X). a < lim h1"
    using assms(1) f1(2,3) by auto
  note f2 = augment_h_frame [OF a]
  note c2 = augment_h_contents [OF a small]
  have f3: "num_lists h3 = num_lists h2" "ref_lists h3 X1 = bs"
    using x by (auto simp: new_ref_list_def)
  have ws: "num_lists h3 wa = w0"
    using f3(1) f2 f1 by simp
  have ys: "num_lists h3 y = num_lists h y"
    using f3(1) f2 f1 assms(2) by simp
  have xs: "samples_at h3 X1 = map (\<lambda>x. PyInt 1 # x) (samples_at h X)"
  proof -
    have "samples_at h3 X1 = map (num_lists h2) bs"
      by (simp add: samples_at_def f3)
    also have "\<dots> = map (\<lambda>a. PyInt 1 # num_lists h1 a) (ref_lists h1 X)"
      using c2 by simp
    also have "\<dots> = map (\<lambda>a. PyInt 1 # num_lists h a) (ref_lists h X)"
      using f1(2,5) assms(1) by simp
    finally show ?thesis by (simp add: samples_at_def comp_def)
  qed
  have fresh: "\<forall>a \<in> set (ref_lists h3 X1). weights s1 \<noteq> Some a"
    using c2 f1(1,3) by (auto simp: f3 s1_def)
  have ny: "weights s1 \<noteq> Some y"
    using assms(2) f1(1) by (simp add: s1_def)
  have v1: "value_of h3 s1 = (value_of h self)\<lparr>weights := Some w0, priv_iterations := 0\<rparr>"
    by (simp add: value_of_def s1_def ws)
  have "(case fit_h F self h X y rnd of (r, self', h') \<Rightarrow> (r, value_of h' self'))
      = fit_loop F (nat (n_iters self)) (value_of h3 s1) (samples_at h3 X1) (num_lists h3 y)"
    unfolding run using fresh ny by (rule fit_loop_h_value)
  also have "\<dots> = fit F (value_of h self) (samples_at h X) (num_lists h y) rnd"
    unfolding v1 xs ys
    by (simp add: fit_def samples_at_def Cons w0_def value_of_def)
  finally show ?thesis .
qed

end
